theory Spec2Isabelle
  imports Complex_Main
begin

section \<open>Signal helpers of molyso (\<^verbatim>\<open>molyso/generic/signal.py\<close>)\<close>

subsection \<open>\<^verbatim>\<open>find_insides\<close>\<close>

text \<open>
  The loop variable \<^verbatim>\<open>last_true\<close> is \<^verbatim>\<open>None\<close> or an index. Python tests it by
  truthiness (\<^verbatim>\<open>not last_true\<close>, \<^verbatim>\<open>if last_true\<close>), so both \<^verbatim>\<open>None\<close> and the
  index \<^verbatim>\<open>0\<close> count as false.
\<close>

fun truthy :: "nat option \<Rightarrow> bool" where
  "truthy None = False"
| "truthy (Some n) = (n \<noteq> 0)"

text \<open>
  The body of \<^verbatim>\<open>for n, i in enumerate(signal)\<close>, with the state
  \<^verbatim>\<open>(last_true, pairs)\<close> passed along. A pair \<^verbatim>\<open>[a, b]\<close> is a HOL pair.
\<close>

fun find_insides_loop ::
  "nat \<Rightarrow> nat option \<Rightarrow> (nat \<times> nat) list \<Rightarrow> bool list \<Rightarrow> nat option \<times> (nat \<times> nat) list" where
  "find_insides_loop n last_true pairs [] = (last_true, pairs)"
| "find_insides_loop n last_true pairs (i # signal) =
     (if i \<and> \<not> truthy last_true then find_insides_loop (Suc n) (Some n) pairs signal
      else if \<not> i \<and> truthy last_true
        then find_insides_loop (Suc n) None (pairs @ [(the last_true, n)]) signal
      else find_insides_loop (Suc n) last_true pairs signal)"

definition find_insides :: "bool list \<Rightarrow> (nat \<times> nat) list" where
  "find_insides signal =
     (case find_insides_loop 0 None [] signal of
        (last_true, pairs) \<Rightarrow>
          if truthy last_true then pairs @ [(the last_true, length signal - 1)] else pairs)"

subsection \<open>Errors and floating-point values\<close>

text \<open>The Python exceptions the modelled code can raise.\<close>

datatype error = ValueError | TypeError | IndexError | AttributeError

text \<open>
  A float is a real number or one of the three special values; arithmetic on the finite
  values is exact (rounding is not modelled), arithmetic on the special values follows
  IEEE 754 as numpy does (a division by zero gives an infinity or NaN and a warning, no
  exception). Zero is taken as positive zero.
\<close>

datatype fval = Fin real | PInf | NInf | NaN

fun is_finite :: "fval \<Rightarrow> bool" where
  "is_finite (Fin x) = True"
| "is_finite v = False"

fun fadd :: "fval \<Rightarrow> fval \<Rightarrow> fval" where
  "fadd (Fin a) (Fin b) = Fin (a + b)"
| "fadd NaN v = NaN"
| "fadd v NaN = NaN"
| "fadd PInf NInf = NaN"
| "fadd NInf PInf = NaN"
| "fadd PInf v = PInf"
| "fadd v PInf = PInf"
| "fadd NInf v = NInf"
| "fadd v NInf = NInf"

fun fneg :: "fval \<Rightarrow> fval" where
  "fneg (Fin a) = Fin (- a)"
| "fneg PInf = NInf"
| "fneg NInf = PInf"
| "fneg NaN = NaN"

definition fsub :: "fval \<Rightarrow> fval \<Rightarrow> fval" where
  "fsub a b = fadd a (fneg b)"

fun fdiv :: "fval \<Rightarrow> fval \<Rightarrow> fval" where
  "fdiv (Fin a) (Fin b) =
     (if b \<noteq> 0 then Fin (a / b)
      else if a = 0 then NaN else if 0 < a then PInf else NInf)"
| "fdiv NaN v = NaN"
| "fdiv v NaN = NaN"
| "fdiv (Fin a) v = Fin 0"
| "fdiv PInf (Fin b) = (if 0 \<le> b then PInf else NInf)"
| "fdiv NInf (Fin b) = (if 0 \<le> b then NInf else PInf)"
| "fdiv v w = NaN"

text \<open>Comparison: every comparison with NaN is false.\<close>

fun fless :: "fval \<Rightarrow> fval \<Rightarrow> bool" where
  "fless (Fin a) (Fin b) = (a < b)"
| "fless NaN v = False"
| "fless v NaN = False"
| "fless v NInf = False"
| "fless NInf v = True"
| "fless PInf v = False"
| "fless v PInf = True"

text \<open>\<^verbatim>\<open>numpy.minimum\<close> and \<^verbatim>\<open>numpy.maximum\<close>: NaN propagates.\<close>

fun fminimum :: "fval \<Rightarrow> fval \<Rightarrow> fval" where
  "fminimum NaN v = NaN"
| "fminimum v NaN = NaN"
| "fminimum a b = (if fless b a then b else a)"

fun fmaximum :: "fval \<Rightarrow> fval \<Rightarrow> fval" where
  "fmaximum NaN v = NaN"
| "fmaximum v NaN = NaN"
| "fmaximum a b = (if fless a b then b else a)"

text \<open>
  \<^verbatim>\<open>ndarray.min()\<close> and \<^verbatim>\<open>ndarray.max()\<close>: a reduction with no identity, which
  raises \<^verbatim>\<open>ValueError\<close> on an empty array.
\<close>

fun amin :: "fval list \<Rightarrow> error + fval" where
  "amin [] = Inl ValueError"
| "amin (x # xs) = Inr (fold (\<lambda>v acc. fminimum acc v) xs x)"

fun amax :: "fval list \<Rightarrow> error + fval" where
  "amax [] = Inl ValueError"
| "amax (x # xs) = Inr (fold (\<lambda>v acc. fmaximum acc v) xs x)"

subsection \<open>Rounding to double precision\<close>

text \<open>
  Rounding to the nearest integer, a tie going to the even neighbour: the rounding of
  IEEE 754 arithmetic and of \<^verbatim>\<open>numpy.rint\<close>.
\<close>

definition round_half_even :: "real \<Rightarrow> int" where
  "round_half_even y =
     (let f = \<lfloor>y\<rfloor>; d = y - real_of_int f
      in if d < 1 / 2 then f else if d > 1 / 2 then f + 1 else if even f then f else f + 1)"

text \<open>
  A \<^verbatim>\<open>float\<close> of numpy is an IEEE 754 binary64 number: an integer multiple \<open>n * 2 ^ e\<close>
  with \<open>\<bar>n\<bar> < 2 ^ 53\<close> and \<open>- 1074 \<le> e\<close>, of magnitude below \<open>2 ^ 1024\<close>. Every arithmetic
  operation returns the exact result rounded to the nearest such number, ties to even:
  \<open>ulp_exponent x\<close> is the exponent of the spacing of the doubles around \<open>x\<close> (constant
  \<open>- 1074\<close> in the subnormal range), \<open>round_to_double\<close> rounds to a multiple of that
  spacing, and \<open>to_double\<close> gives the infinity of the right sign when the rounded value
  leaves the range.
\<close>

definition ulp_exponent :: "real \<Rightarrow> int" where
  "ulp_exponent x = max (- 1074) (\<lfloor>log 2 \<bar>x\<bar>\<rfloor> - 52)"

definition round_to_double :: "real \<Rightarrow> real" where
  "round_to_double x =
     (if x = 0 then 0
      else real_of_int (round_half_even (x / 2 powr real_of_int (ulp_exponent x)))
             * 2 powr real_of_int (ulp_exponent x))"

definition to_double :: "real \<Rightarrow> fval" where
  "to_double x =
     (let r = round_to_double x
      in if 2 ^ 1024 \<le> r then PInf else if r \<le> - (2 ^ 1024) then NInf else Fin r)"

text \<open>
  The result of a float operation whose exact value is \<open>v\<close>; also \<^verbatim>\<open>astype(float)\<close> on
  one element (an integer beyond \<open>2 ^ 53\<close> is rounded).
\<close>

fun round_double :: "fval \<Rightarrow> fval" where
  "round_double (Fin x) = to_double x"
| "round_double v = v"

text \<open>The reals that are doubles.\<close>

definition is_double :: "real \<Rightarrow> bool" where
  "is_double d = (round_to_double d = d \<and> \<bar>d\<bar> < 2 ^ 1024)"

text \<open>
  \<^verbatim>\<open>==\<close> on floats, under which NaN equals nothing, and on two arrays: the same length
  and \<^verbatim>\<open>==\<close> in every position.
\<close>

fun feq :: "fval \<Rightarrow> fval \<Rightarrow> bool" where
  "feq NaN v = False"
| "feq v NaN = False"
| "feq a b = (a = b)"

definition array_equal :: "fval list \<Rightarrow> fval list \<Rightarrow> bool" where
  "array_equal xs ys = (length xs = length ys \<and> list_all (\<lambda>(a, b). feq a b) (zip xs ys))"

subsection \<open>\<^verbatim>\<open>normalize\<close>\<close>

text \<open>
  \<^verbatim>\<open>result = data.astype(float); result -= result.min(); result /= result.max()\<close>.
  The argument holds the exact values of the elements of \<^verbatim>\<open>data\<close> (integers or floats);
  \<^verbatim>\<open>astype(float)\<close> rounds each to a double, and the two in-place updates are float
  operations on that copy, which is returned: the difference may overflow to an infinity
  and the quotient is rounded.
\<close>

definition normalize :: "fval list \<Rightarrow> error + fval list" where
  "normalize data =
     (let result = map round_double data in
      case amin result of Inl e \<Rightarrow> Inl e
      | Inr lo \<Rightarrow>
          (let result = map (\<lambda>x. round_double (fsub x lo)) result in
           case amax result of Inl e \<Rightarrow> Inl e
           | Inr hi \<Rightarrow> Inr (map (\<lambda>x. round_double (fdiv x hi)) result)))"

subsection \<open>Arrays and the store\<close>

text \<open>
  A one-dimensional \<^verbatim>\<open>numpy.ndarray\<close> with its dtype: integer or float. The float
  arrays of the functions below hold finite values, written as reals.
\<close>

datatype ndarray = IntArray "int list" | FloatArray "real list"

fun float_values :: "ndarray \<Rightarrow> real list" where
  "float_values (IntArray xs) = map real_of_int xs"
| "float_values (FloatArray xs) = xs"

fun size_of :: "ndarray \<Rightarrow> nat" where
  "size_of (IntArray xs) = length xs"
| "size_of (FloatArray xs) = length xs"

fun is_int_array :: "ndarray \<Rightarrow> bool" where
  "is_int_array (IntArray xs) = True"
| "is_int_array (FloatArray xs) = False"

text \<open>A float stored into an integer array is cast as C does: truncated towards zero.\<close>

definition trunc :: "real \<Rightarrow> int" where
  "trunc x = (if 0 \<le> x then \<lfloor>x\<rfloor> else \<lceil>x\<rceil>)"

text \<open>
  \<^verbatim>\<open>data[mask] = v\<close>: the boolean mask selects the positions that take the scalar
  \<open>v\<close>, cast to the dtype of the array.
\<close>

fun setitem_mask :: "bool list \<Rightarrow> real \<Rightarrow> ndarray \<Rightarrow> ndarray" where
  "setitem_mask sel v (IntArray xs) = IntArray (map2 (\<lambda>m x. if m then trunc v else x) sel xs)"
| "setitem_mask sel v (FloatArray xs) = FloatArray (map2 (\<lambda>m x. if m then v else x) sel xs)"

text \<open>
  Arrays are objects: a variable holds a reference, and an in-place assignment is seen
  through every reference to the same array. The store maps references to arrays;
  \<open>fresh\<close> is the next unused reference.
\<close>

record store =
  cells :: "nat \<rightharpoonup> ndarray"
  fresh :: nat

definition wf_store :: "store \<Rightarrow> bool" where
  "wf_store h = (\<forall>a. a \<in> dom (cells h) \<longrightarrow> a < fresh h)"

text \<open>\<^verbatim>\<open>data.copy()\<close>: a new array with the same dtype and contents.\<close>

definition copy :: "nat \<Rightarrow> store \<Rightarrow> (nat \<times> store) option" where
  "copy a h =
     (case cells h a of None \<Rightarrow> None
      | Some arr \<Rightarrow> Some (fresh h, h\<lparr>cells := (cells h)(fresh h \<mapsto> arr), fresh := Suc (fresh h)\<rparr>))"

text \<open>In-place update of the array behind a reference.\<close>

definition update_array :: "nat \<Rightarrow> (ndarray \<Rightarrow> ndarray) \<Rightarrow> store \<Rightarrow> store option" where
  "update_array a f h =
     (case cells h a of None \<Rightarrow> None | Some arr \<Rightarrow> Some (h\<lparr>cells := (cells h)(a \<mapsto> f arr)\<rparr>))"

subsection \<open>\<^verbatim>\<open>threshold_outliers\<close>\<close>

definition mean :: "real list \<Rightarrow> real" where
  "mean xs = sum_list xs / real (length xs)"

text \<open>
  \<^verbatim>\<open>numpy.median\<close>: the middle element of the sorted data, or the mean of the two
  middle elements. \<^verbatim>\<open>numpy.std\<close>: the population standard deviation. (On an empty
  array numpy gives NaN for both, with a warning; the masks are then empty and the values
  are not used.)
\<close>

definition median :: "real list \<Rightarrow> real" where
  "median xs =
     (let s = sort xs; n = length xs
      in if odd n then s ! (n div 2) else (s ! (n div 2 - 1) + s ! (n div 2)) / 2)"

definition std :: "real list \<Rightarrow> real" where
  "std xs = sqrt (mean (map (\<lambda>x. (x - mean xs)\<^sup>2) xs))"

text \<open>
  The function rebinds its parameter \<^verbatim>\<open>data\<close> to a copy and assigns into the copy
  twice; the second mask is computed from the copy as the first assignment left it. The
  result is \<open>None\<close> only for a reference that the store does not hold.
\<close>

definition threshold_outliers :: "nat \<Rightarrow> real \<Rightarrow> store \<Rightarrow> (nat \<times> store) option" where
  "threshold_outliers data times_std h =
     (case copy data h of None \<Rightarrow> None
      | Some (data, h) \<Rightarrow>
          (case cells h data of None \<Rightarrow> None
           | Some arr \<Rightarrow>
               (let median = median (float_values arr);
                    std = std (float_values arr)
                in case update_array data
                      (\<lambda>d. setitem_mask (map (\<lambda>x. x - median > times_std * std) (float_values d))
                              (median + times_std * std) d) h of
                     None \<Rightarrow> None
                   | Some h \<Rightarrow>
                       (case update_array data
                          (\<lambda>d. setitem_mask
                                  (map (\<lambda>x. x - median < 0 \<and> \<bar>x - median\<bar> > times_std * std)
                                     (float_values d))
                                  (median - times_std * std) d) h of
                          None \<Rightarrow> None
                        | Some h \<Rightarrow> Some (data, h)))))"

subsection \<open>\<^verbatim>\<open>relative_maxima\<close>, \<^verbatim>\<open>relative_minima\<close>\<close>

text \<open>
  Both wrap \<^verbatim>\<open>scipy.signal.argrelmax\<close> / \<^verbatim>\<open>argrelmin\<close>, which are library code. The
  library compares every sample with its neighbours at distance \<open>1 .. order\<close> on both
  sides, reading neighbours beyond an end at the end itself (\<^verbatim>\<open>mode='clip'\<close>), and
  returns the indices where all comparisons hold; it raises \<^verbatim>\<open>ValueError\<close> for an
  order below 1.
\<close>

definition take_clip :: "real list \<Rightarrow> int \<Rightarrow> real" where
  "take_clip data i = data ! nat (max 0 (min i (int (length data) - 1)))"

definition boolrelextrema :: "real list \<Rightarrow> (real \<Rightarrow> real \<Rightarrow> bool) \<Rightarrow> int \<Rightarrow> error + bool list" where
  "boolrelextrema data comparator ord =
     (if ord < 1 then Inl ValueError
      else Inr (map (\<lambda>loc. list_all (\<lambda>shift.
                       comparator (data ! loc) (take_clip data (int loc + shift)) \<and>
                       comparator (data ! loc) (take_clip data (int loc - shift))) [1..ord])
                  [0..<length data]))"

definition argrelextrema :: "real list \<Rightarrow> (real \<Rightarrow> real \<Rightarrow> bool) \<Rightarrow> int \<Rightarrow> error + nat list" where
  "argrelextrema data comparator ord =
     (case boolrelextrema data comparator ord of
        Inl e \<Rightarrow> Inl e
      | Inr results \<Rightarrow> Inr (filter (\<lambda>i. results ! i) [0..<length results]))"

definition relative_maxima :: "real list \<Rightarrow> int \<Rightarrow> error + nat list" where
  "relative_maxima sig ord = argrelextrema sig (\<lambda>a b. a > b) ord"

definition relative_minima :: "real list \<Rightarrow> int \<Rightarrow> error + nat list" where
  "relative_minima sig ord = argrelextrema sig (\<lambda>a b. a < b) ord"

subsection \<open>\<^verbatim>\<open>find_extrema_and_prominence\<close>\<close>

text \<open>
  \<^verbatim>\<open>numpy.argmax\<close> and \<^verbatim>\<open>numpy.argmin\<close>: the index of the first occurrence of the
  extreme value; \<^verbatim>\<open>ValueError\<close> on an empty array.
\<close>

fun argbest :: "(real \<Rightarrow> real \<Rightarrow> bool) \<Rightarrow> nat \<Rightarrow> real \<Rightarrow> nat \<Rightarrow> real list \<Rightarrow> nat" where
  "argbest better b bv i [] = b"
| "argbest better b bv i (x # xs) =
     (if better x bv then argbest better i x (Suc i) xs else argbest better b bv (Suc i) xs)"

fun argmax :: "real list \<Rightarrow> error + nat" where
  "argmax [] = Inl ValueError"
| "argmax (x # xs) = Inr (argbest (\<lambda>a b. a > b) 0 x 1 xs)"

fun argmin :: "real list \<Rightarrow> error + nat" where
  "argmin [] = Inl ValueError"
| "argmin (x # xs) = Inr (argbest (\<lambda>a b. a < b) 0 x 1 xs)"

text \<open>
  The retry loop
  \<^verbatim>\<open>while iorder > 0: try: m = relative_maxima(signal, order=iorder)
       except ValueError: iorder -= 1; continue
     break\<close>
  for the extrema function \<open>f\<close> and the value \<open>current\<close> that the variable holds when the
  loop is entered. Only \<^verbatim>\<open>ValueError\<close> is caught.
\<close>

function extrema_retry ::
  "(real list \<Rightarrow> int \<Rightarrow> error + nat list) \<Rightarrow> real list \<Rightarrow> int \<Rightarrow> nat list \<Rightarrow> error + nat list" where
  "extrema_retry f sig iorder current =
     (if iorder > 0 then
        (case f sig iorder of
           Inr found \<Rightarrow> Inr found
         | Inl e \<Rightarrow> if e = ValueError then extrema_retry f sig (iorder - 1) current else Inl e)
      else Inr current)"
  by pat_completeness auto
termination
  by (relation "measure (\<lambda>(f, sig, iorder, current). nat iorder)") auto

text \<open>The result tuple.\<close>

record ExtremeAndProminence =
  maxima :: "nat list"
  minima :: "nat list"
  signal :: "real list"
  order :: int
  max_spline :: "real \<Rightarrow> fval"
  min_spline :: "real \<Rightarrow> fval"
  xpts :: "real list"
  max_spline_points :: "fval list"
  min_spline_points :: "fval list"
  prominence :: "fval list"

text \<open>
  The control points of one envelope: \<^verbatim>\<open>x = [0] + extrema + [len(signal) - 1]\<close> and
  \<^verbatim>\<open>y = [signal[extrema][0]] + signal[extrema] + [signal[extrema][-1]]\<close>. Indexing an
  empty selection raises \<^verbatim>\<open>IndexError\<close>.
\<close>

definition intpx :: "nat list \<Rightarrow> real list \<Rightarrow> real list" where
  "intpx extrema sig = [0] @ map real extrema @ [real_of_int (int (length sig) - 1)]"

definition intpy :: "nat list \<Rightarrow> real list \<Rightarrow> error + real list" where
  "intpy extrema sig =
     (let sel = map (\<lambda>i. sig ! i) extrema
      in if sel = [] then Inl IndexError else Inr ([hd sel] @ sel @ [last sel]))"

text \<open>
  The envelope function. \<^verbatim>\<open>scipy.interpolate.UnivariateSpline(x, y, bbox=[0, n], k=k)\<close>
  is library code: \<open>spline x y bbox k\<close> stands for the callable it returns. With
  \<open>k < 1\<close> the code takes the constant infinite function with the given value instead.
\<close>

definition envelope ::
  "(real list \<Rightarrow> real list \<Rightarrow> real \<times> real \<Rightarrow> int \<Rightarrow> real \<Rightarrow> fval) \<Rightarrow>
   fval \<Rightarrow> real list \<Rightarrow> real list \<Rightarrow> nat \<Rightarrow> real \<Rightarrow> fval" where
  "envelope spline inf_value px py n =
     (let k = 3;
          k = (if length py \<le> 3 then int (length py) - 1 else k)
      in if k < 1 then (\<lambda>arg. inf_value) else spline px py (0, real n) k)"

definition find_extrema_and_prominence ::
  "(real list \<Rightarrow> real list \<Rightarrow> real \<times> real \<Rightarrow> int \<Rightarrow> real \<Rightarrow> fval) \<Rightarrow>
   real list \<Rightarrow> int \<Rightarrow> error + ExtremeAndProminence" where
  "find_extrema_and_prominence spline sig ord =
     (case argmax sig of Inl e \<Rightarrow> Inl e | Inr i_max \<Rightarrow>
      case extrema_retry relative_maxima sig ord [i_max] of Inl e \<Rightarrow> Inl e | Inr mx \<Rightarrow>
      let mx = (if length mx = 0 then [i_max] else mx) in
      case argmin sig of Inl e \<Rightarrow> Inl e | Inr i_min \<Rightarrow>
      case extrema_retry relative_minima sig ord [i_min] of Inl e \<Rightarrow> Inl e | Inr mn \<Rightarrow>
      let mn = (if length mn = 0 then [i_min] else mn) in
      case intpy mx sig of Inl e \<Rightarrow> Inl e | Inr maximaintpy \<Rightarrow>
      case intpy mn sig of Inl e \<Rightarrow> Inl e | Inr minimaintpy \<Rightarrow>
      let maximaintpx = intpx mx sig;
          minimaintpx = intpx mn sig;
          maxs = envelope spline PInf maximaintpx maximaintpy (length sig);
          mins = envelope spline NInf minimaintpx minimaintpy (length sig);
          pts = map real [0..<length sig];
          maxsy = map maxs pts;
          minsy = map mins pts
      in Inr \<lparr>maxima = mx, minima = mn, signal = sig, order = ord,
               max_spline = maxs, min_spline = mins, xpts = pts,
               max_spline_points = maxsy, min_spline_points = minsy,
               prominence = map2 fsub maxsy minsy\<rparr>)"

text \<open>
  The polynomial through the control points, in Lagrange form. For \<open>k + 1\<close> control points
  with distinct abscissae the least-squares polynomial of degree \<open>k\<close> passes through all
  of them, so its residual is zero and the spline library returns this polynomial; the
  doctest of \<^verbatim>\<open>find_extrema_and_prominence\<close> lists its values.
\<close>

definition lagrange :: "real list \<Rightarrow> real list \<Rightarrow> real \<Rightarrow> real" where
  "lagrange px py x =
     (\<Sum>j\<leftarrow>[0..<length px]. py ! j *
        (\<Prod>m\<leftarrow>[0..<length px]. if m = j then 1 else (x - px ! m) / (px ! j - px ! m)))"

definition interpolating_spline ::
  "real list \<Rightarrow> real list \<Rightarrow> real \<times> real \<Rightarrow> int \<Rightarrow> real \<Rightarrow> fval" where
  "interpolating_spline px py bbox k x = Fin (lagrange px py x)"

section \<open>Cell detection (\<^verbatim>\<open>molyso/mm/cell_detection.py\<close>)\<close>

subsection \<open>Configuration and the primitives used\<close>

text \<open>
  \<^verbatim>\<open>tunable(name, default)\<close> gives the configured value of a named setting or its
  default; the settings read by \<^verbatim>\<open>find_cells_in_channel\<close> form a record. (The registry
  also records each default it is asked for; that bookkeeping has no part in the result.)
\<close>

record tunables =
  empty_channel_skipping :: bool
  outlier_times_sigma :: real
  intensity_range_quotient :: real
  otsu_bias :: real
  smoothing_length :: nat
  extrema_order :: int
  maximum_brightness :: real
  minimum_prominence :: real

definition default_tunables :: tunables where
  "default_tunables =
     \<lparr>empty_channel_skipping = False, outlier_times_sigma = 2, intensity_range_quotient = 1 / 2,
      otsu_bias = 1, smoothing_length = 10, extrema_order = 15,
      maximum_brightness = 1 / 2, minimum_prominence = 10\<rparr>"

text \<open>
  \<^verbatim>\<open>threshold_otsu\<close> (module \<^verbatim>\<open>molyso.generic.otsu\<close>) and \<^verbatim>\<open>hamming_smooth\<close>
  (module \<^verbatim>\<open>molyso.generic.smoothing\<close>) are defined outside the files modelled here, and
  the spline comes from a library: the three are parameters. \<^verbatim>\<open>hamming_smooth\<close> returns a
  signal of the length of its argument (as the doctest of \<^verbatim>\<open>simple_baseline_correction\<close>
  shows), so the subtraction below is element-wise.
\<close>

record primitives =
  threshold_otsu :: "real list list \<Rightarrow> real"
  hamming_smooth :: "real list \<Rightarrow> nat \<Rightarrow> real list"
  univariate_spline :: "real list \<Rightarrow> real list \<Rightarrow> real \<times> real \<Rightarrow> int \<Rightarrow> real \<Rightarrow> fval"

subsection \<open>Profiles\<close>

text \<open>
  An image is the list of its rows (axis 0 runs along the channel); every row holds at
  least one pixel. \<^verbatim>\<open>vertical_mean\<close> is \<^verbatim>\<open>numpy.average(image, axis=1)\<close>.
\<close>

definition vertical_mean :: "real list list \<Rightarrow> real list" where
  "vertical_mean img = map mean img"

definition simple_baseline_correction ::
  "(real list \<Rightarrow> nat \<Rightarrow> real list) \<Rightarrow> real list \<Rightarrow> nat option \<Rightarrow> real list" where
  "simple_baseline_correction smooth sig window_width =
     (let w = (case window_width of None \<Rightarrow> length sig
               | Some w \<Rightarrow> if w > length sig then length sig else w)
      in map2 (\<lambda>a b. a - b) sig (smooth sig w))"

text \<open>
  \<^verbatim>\<open>ndarray.round(8)\<close> on a float: numpy computes \<^verbatim>\<open>rint(x * 1e8) / 1e8\<close> in double
  arithmetic, so the product and the quotient are each rounded to a double (the profile
  values are far inside the range of the doubles; overflow of the product is left out).
\<close>

definition round8 :: "real \<Rightarrow> real" where
  "round8 x =
     round_to_double (real_of_int (round_half_even (round_to_double (x * 10 ^ 8))) / 10 ^ 8)"

text \<open>
  The array that \<^verbatim>\<open>threshold_outliers\<close> returns for an argument array (lemma
  \<open>threshold_outliers_returns_result\<close> below ties it to the function on the store).
\<close>

definition threshold_outliers_result :: "ndarray \<Rightarrow> real \<Rightarrow> ndarray" where
  "threshold_outliers_result arr times_std =
     (let m = median (float_values arr); s = std (float_values arr);
          d1 = setitem_mask (map (\<lambda>x. x - m > times_std * s) (float_values arr))
                 (m + times_std * s) arr
      in setitem_mask (map (\<lambda>x. x - m < 0 \<and> \<bar>x - m\<bar> > times_std * s) (float_values d1))
           (m - times_std * s) d1)"

text \<open>\<^verbatim>\<open>profile_of_binary_image\<close>: the share of pixels above the biased Otsu threshold.\<close>

definition profile_of_binary_image :: "primitives \<Rightarrow> tunables \<Rightarrow> real list list \<Rightarrow> real list" where
  "profile_of_binary_image prims cfg img =
     vertical_mean
       (map (map (\<lambda>p. if p > threshold_otsu prims img * otsu_bias cfg then 1 else 0)) img)"

text \<open>The profile after baseline correction, smoothing and rounding.\<close>

definition processed_profile :: "primitives \<Rightarrow> tunables \<Rightarrow> real list list \<Rightarrow> real list" where
  "processed_profile prims cfg img =
     (let profile = vertical_mean img;
          profile = simple_baseline_correction (hamming_smooth prims) profile None;
          profile = hamming_smooth prims profile (smoothing_length cfg)
      in map round8 profile)"

text \<open>
  The test of the empty-channel short-circuit,
  \<^verbatim>\<open>(t.max() - t.min()) / t.max() < quotient and skipping\<close> for the thresholded profile
  \<open>t\<close>; \<^verbatim>\<open>max()\<close> of an empty profile raises \<^verbatim>\<open>ValueError\<close>.
\<close>

definition empty_channel :: "tunables \<Rightarrow> real list list \<Rightarrow> error + bool" where
  "empty_channel cfg img =
     (let thresholded_profile = float_values (threshold_outliers_result
            (FloatArray (vertical_mean img)) (outlier_times_sigma cfg))
      in if thresholded_profile = [] then Inl ValueError
         else Inr (fless (fdiv (Fin (Max (set thresholded_profile) - Min (set thresholded_profile)))
                            (Fin (Max (set thresholded_profile))))
                     (Fin (intensity_range_quotient cfg)) \<and>
                   empty_channel_skipping cfg))"

subsection \<open>\<^verbatim>\<open>find_cells_in_channel\<close>\<close>

text \<open>
  A slice \<^verbatim>\<open>a[i:j]\<close> with non-negative bounds, and \<^verbatim>\<open>ndarray.mean()\<close> (NaN for an
  empty slice).
\<close>

definition slice :: "'a list \<Rightarrow> nat \<Rightarrow> nat \<Rightarrow> 'a list" where
  "slice xs i j = take (j - i) (drop i xs)"

definition amean :: "fval list \<Rightarrow> fval" where
  "amean xs = fdiv (foldl fadd (Fin 0) xs) (Fin (real (length xs)))"

text \<open>The inner function \<^verbatim>\<open>is_a_cell(last_pos, pos)\<close>, with the values it closes over.\<close>

definition is_a_cell :: "tunables \<Rightarrow> real list \<Rightarrow> fval list \<Rightarrow> nat \<Rightarrow> nat \<Rightarrow> bool" where
  "is_a_cell cfg pbin prom last_pos pos =
     (int pos - int last_pos > 2 \<and>
      fless (amean (map Fin (slice pbin last_pos pos))) (Fin (maximum_brightness cfg)) \<and>
      fless (Fin (minimum_prominence cfg)) (amean (slice prom last_pos pos)))"

text \<open>
  \<^verbatim>\<open>positions = [p for p in extrema.maxima if extrema.prominence[p] > 0] + [profile.size]\<close>
  and
  \<^verbatim>\<open>cells = [[l + 1, p - 1] for l, p in zip([0] + positions, positions) if is_a_cell(l, p)]\<close>.
\<close>

definition positions :: "ExtremeAndProminence \<Rightarrow> nat \<Rightarrow> nat list" where
  "positions extrema profile_size =
     [p \<leftarrow> maxima extrema. fless (Fin 0) (prominence extrema ! p)] @ [profile_size]"

definition cells_between :: "tunables \<Rightarrow> real list \<Rightarrow> fval list \<Rightarrow> nat list \<Rightarrow> (nat \<times> nat) list" where
  "cells_between cfg pbin prom ps =
     map (\<lambda>(last_pos, pos). (last_pos + 1, pos - 1))
       (filter (\<lambda>(last_pos, pos). is_a_cell cfg pbin prom last_pos pos) (zip ([0] @ ps) ps))"

definition find_cells_in_channel ::
  "primitives \<Rightarrow> tunables \<Rightarrow> real list list \<Rightarrow> error + (nat \<times> nat) list" where
  "find_cells_in_channel prims cfg img =
     (case empty_channel cfg img of Inl e \<Rightarrow> Inl e
      | Inr skip \<Rightarrow>
          if skip then Inr []
          else
            (let pbin = profile_of_binary_image prims cfg img;
                 profile = processed_profile prims cfg img
             in case find_extrema_and_prominence (univariate_spline prims) profile
                       (extrema_order cfg) of
                  Inl e \<Rightarrow> Inl e
                | Inr extrema \<Rightarrow>
                    Inr (cells_between cfg pbin (prominence extrema)
                           (positions extrema (length profile)))))"

subsection \<open>What the detector is to emit\<close>

text \<open>
  The rule in the words of the specification. The candidate split points are the maxima
  of strictly positive prominence, then the end of the profile. A segment
  \<open>(last_pos, pos)\<close> is accepted when it is longer than two pixels, its mean binarized
  brightness is below the configured maximum and its mean prominence is above the
  configured minimum. Walking the candidates from an implicit leading 0, each accepted
  segment between two consecutive candidates is emitted as \<open>(last_pos + 1, pos - 1)\<close>.
\<close>

definition candidate_points :: "nat list \<Rightarrow> fval list \<Rightarrow> nat \<Rightarrow> nat list" where
  "candidate_points mx prom n = filter (\<lambda>p. fless (Fin 0) (prom ! p)) mx @ [n]"

definition accepted :: "tunables \<Rightarrow> real list \<Rightarrow> fval list \<Rightarrow> nat \<Rightarrow> nat \<Rightarrow> bool" where
  "accepted cfg pbin prom last_pos pos =
     (last_pos + 2 < pos \<and>
      fless (amean (map Fin (slice pbin last_pos pos))) (Fin (maximum_brightness cfg)) \<and>
      fless (Fin (minimum_prominence cfg)) (amean (slice prom last_pos pos)))"

fun emitted :: "tunables \<Rightarrow> real list \<Rightarrow> fval list \<Rightarrow> nat \<Rightarrow> nat list \<Rightarrow> (nat \<times> nat) list" where
  "emitted cfg pbin prom last_pos [] = []"
| "emitted cfg pbin prom last_pos (pos # ps) =
     (if accepted cfg pbin prom last_pos pos
      then (last_pos + 1, pos - 1) # emitted cfg pbin prom pos ps
      else emitted cfg pbin prom pos ps)"

subsection \<open>An example channel\<close>

text \<open>
  A channel of seven rows, one pixel wide, with stand-ins for the three primitives: a
  fixed threshold, a smoothing that flattens the signal at full window width and leaves
  it alone otherwise, and an envelope at the height of its first control point.
\<close>

definition example_primitives :: primitives where
  "example_primitives =
     \<lparr>threshold_otsu = (\<lambda>img. 50),
      hamming_smooth = (\<lambda>sig w. if w = length sig then map (\<lambda>x. 0) sig else sig),
      univariate_spline = (\<lambda>px py bbox k x. Fin (hd py))\<rparr>"

definition example_tunables :: tunables where
  "example_tunables = default_tunables\<lparr>extrema_order := 1\<rparr>"

definition example_image :: "real list list" where
  "example_image = [[0], [100], [0], [0], [0], [0], [100]]"

section \<open>Phase correlation (\<^verbatim>\<open>find_phase\<close>)\<close>

text \<open>
  Modelled from the spec: \<^verbatim>\<open>fft\<close> and \<^verbatim>\<open>ifft\<close> come from the module
  \<^verbatim>\<open>molyso.generic.fft\<close>, which is not among the files modelled here. The specification
  calls them the
  frequency-domain transform and its inverse: the discrete Fourier transform
  \<open>X[k] = \<Sum>n. x[n] \<cdot> e^(-2\<pi>ikn/N)\<close> and \<open>x[n] = (1/N) \<Sum>k. X[k] \<cdot> e^(2\<pi>ikn/N)\<close>, over exact
  complex numbers. A transform of no data points raises \<^verbatim>\<open>ValueError\<close>.
\<close>

definition unity_root :: "nat \<Rightarrow> complex" where
  "unity_root N = cis (- (2 * pi / real N))"

definition dft :: "complex list \<Rightarrow> complex list" where
  "dft xs = map (\<lambda>k. \<Sum>n\<leftarrow>[0..<length xs]. xs ! n * unity_root (length xs) ^ (k * n)) [0..<length xs]"

definition idft :: "complex list \<Rightarrow> complex list" where
  "idft ys =
     map (\<lambda>n. (\<Sum>k\<leftarrow>[0..<length ys]. ys ! k * cnj (unity_root (length ys)) ^ (k * n))
              / of_nat (length ys)) [0..<length ys]"

definition fft :: "complex list \<Rightarrow> error + complex list" where
  "fft xs = (if xs = [] then Inl ValueError else Inr (dft xs))"

definition ifft :: "complex list \<Rightarrow> error + complex list" where
  "ifft ys = (if ys = [] then Inl ValueError else Inr (idft ys))"

text \<open>
  The element-wise product of two arrays, with numpy's broadcasting of an array of one
  element; other arrays of different lengths raise \<^verbatim>\<open>ValueError\<close>.
\<close>

definition multiply :: "complex list \<Rightarrow> complex list \<Rightarrow> error + complex list" where
  "multiply xs ys =
     (if length xs = length ys then Inr (map2 (\<lambda>a b. a * b) xs ys)
      else if length xs = 1 then Inr (map (\<lambda>b. hd xs * b) ys)
      else if length ys = 1 then Inr (map (\<lambda>a. a * hd ys) xs)
      else Inl ValueError)"

text \<open>
  \<^verbatim>\<open>find_phase(signal_1, signal_2, fft_1, fft_2, return_1, return_2)\<close>. An argument left
  out is \<^verbatim>\<open>None\<close>. The result is the tuple of the shift and the transforms asked for.
  With a transform missing, \<^verbatim>\<open>fft_2.conjugate()\<close> raises \<^verbatim>\<open>AttributeError\<close> and
  the product with \<^verbatim>\<open>fft_1\<close> raises \<^verbatim>\<open>TypeError\<close>.
\<close>

definition find_phase ::
  "real list option \<Rightarrow> real list option \<Rightarrow> complex list option \<Rightarrow> complex list option \<Rightarrow>
   bool \<Rightarrow> bool \<Rightarrow> error + int \<times> complex list list" where
  "find_phase signal_1 signal_2 fft_1 fft_2 return_1 return_2 =
     (case (case (signal_1, fft_1) of
              (Some s, None) \<Rightarrow> (case fft (map complex_of_real s) of
                                    Inl e \<Rightarrow> Inl e | Inr f \<Rightarrow> Inr (Some f))
            | _ \<Rightarrow> Inr fft_1) of
        Inl e \<Rightarrow> Inl e
      | Inr fft_1 \<Rightarrow>
     (case (case (signal_2, fft_2) of
              (Some s, None) \<Rightarrow> (case fft (map complex_of_real s) of
                                    Inl e \<Rightarrow> Inl e | Inr f \<Rightarrow> Inr (Some f))
            | _ \<Rightarrow> Inr fft_2) of
        Inl e \<Rightarrow> Inl e
      | Inr fft_2 \<Rightarrow>
     (case fft_2 of None \<Rightarrow> Inl AttributeError | Some f2 \<Rightarrow>
      case fft_1 of None \<Rightarrow> Inl TypeError | Some f1 \<Rightarrow>
      case multiply f1 (map (\<lambda>z. - cnj z) f2) of Inl e \<Rightarrow> Inl e | Inr product \<Rightarrow>
      case ifft product of Inl e \<Rightarrow> Inl e | Inr corr \<Rightarrow>
      case argmax (map cmod corr) of Inl e \<Rightarrow> Inl e | Inr the_max \<Rightarrow>
        Inr (if real the_max < real (length f1) / 2 then - int the_max
             else int (length f1) - int the_max,
             (if return_1 then [f1] else []) @ (if return_2 then [f2] else [])))))"

section \<open>Properties\<close>

subsection \<open>\<^verbatim>\<open>find_insides\<close>\<close>

lemma find_insides_doctest:
  "find_insides [False, False, True, True, True, False, False, True, True, False, False]
     = [(2, 5), (7, 9)]"
  by (simp add: find_insides_def)

lemma find_insides_loop_lower_aux:
  "\<forall>p\<in>set pairs. m \<le> fst p \<Longrightarrow> (truthy lt \<longrightarrow> m \<le> the lt) \<Longrightarrow> m \<le> 1 \<or> m \<le> n \<Longrightarrow>
   (\<forall>p\<in>set (snd (find_insides_loop n lt pairs sig)). m \<le> fst p) \<and>
   (truthy (fst (find_insides_loop n lt pairs sig)) \<longrightarrow> m \<le> the (fst (find_insides_loop n lt pairs sig)))"
proof (induction n lt pairs sig rule: find_insides_loop.induct)
  case (1 n last_true pairs)
  then show ?case by simp
next
  case (2 n last_true pairs i rest)
  show ?case
  proof (cases "i \<and> \<not> truthy last_true")
    case True
    have "truthy (Some n) \<longrightarrow> m \<le> the (Some n)" using "2.prems"(3) by auto
    moreover have "m \<le> 1 \<or> m \<le> Suc n" using "2.prems"(3) by auto
    ultimately show ?thesis using "2.IH"(1)[OF True "2.prems"(1)] True by simp
  next
    case False
    note nf = False
    show ?thesis
    proof (cases "\<not> i \<and> truthy last_true")
      case True
      have a: "\<forall>p\<in>set (pairs @ [(the last_true, n)]). m \<le> fst p"
        using "2.prems"(1,2) True by auto
      have b: "m \<le> 1 \<or> m \<le> Suc n" using "2.prems"(3) by auto
      show ?thesis using "2.IH"(2)[OF nf True a _ b] nf True by simp
    next
      case False
      have b: "m \<le> 1 \<or> m \<le> Suc n" using "2.prems"(3) by auto
      show ?thesis using "2.IH"(3)[OF nf False "2.prems"(1,2) b] nf False by auto
    qed
  qed
qed

lemma find_insides_loop_lower:
  "find_insides_loop n lt pairs sig = (l, ps) \<Longrightarrow> \<forall>p\<in>set pairs. m \<le> fst p \<Longrightarrow>
   (truthy lt \<longrightarrow> m \<le> the lt) \<Longrightarrow> m \<le> 1 \<or> m \<le> n \<Longrightarrow>
   (\<forall>p\<in>set ps. m \<le> fst p) \<and> (truthy l \<longrightarrow> m \<le> the l)"
  using find_insides_loop_lower_aux[of pairs m lt n sig] by simp

lemma find_insides_loop_prefix: "\<exists>ps'. snd (find_insides_loop n lt pairs sig) = pairs @ ps'"
  by (induction n lt pairs sig rule: find_insides_loop.induct) auto

lemma find_insides_loop_run:
  "s \<noteq> 0 \<Longrightarrow> find_insides_loop n (Some s) pairs (replicate j True) = (Some s, pairs)"
  by (induction j arbitrary: n) auto

lemma find_insides_loop_run_closed:
  "s \<noteq> 0 \<Longrightarrow> find_insides_loop n (Some s) pairs (replicate j True @ False # rest)
     = find_insides_loop (Suc (n + j)) None (pairs @ [(s, n + j)]) rest"
  by (induction j arbitrary: n) auto

lemma find_insides_no_zero_start: "\<forall>p\<in>set (find_insides sig). fst p \<noteq> 0"
proof -
  obtain l ps where r: "find_insides_loop 0 None [] sig = (l, ps)" by force
  from find_insides_loop_lower[OF r, of 1] have "(\<forall>p\<in>set ps. 1 \<le> fst p) \<and> (truthy l \<longrightarrow> 1 \<le> the l)" by simp
  then show ?thesis using r by (auto simp: find_insides_def)
qed

lemma find_insides_single_closed: "\<forall>p\<in>set (find_insides (True # False # rest)). 2 \<le> fst p"
proof -
  obtain l ps where r: "find_insides_loop 2 (Some 0) [] rest = (l, ps)" by force
  from find_insides_loop_lower[OF r, of 2] have "(\<forall>p\<in>set ps. 2 \<le> fst p) \<and> (truthy l \<longrightarrow> 2 \<le> the l)" by simp
  then show ?thesis using r by (auto simp: find_insides_def numeral_2_eq_2)
qed

lemma find_insides_run_open:
  "2 \<le> k \<Longrightarrow> find_insides (replicate k True) = [(1, k - 1)]"
proof -
  assume "2 \<le> k"
  then obtain j where k: "k = Suc (Suc j)" by (metis Suc_leD Suc_le_D numeral_2_eq_2 Suc_le_mono)
  show ?thesis by (simp add: k find_insides_def find_insides_loop_run)
qed

lemma find_insides_run_closed:
  "2 \<le> k \<Longrightarrow> \<exists>ps. find_insides (replicate k True @ False # rest) = (1, k) # ps"
proof -
  assume "2 \<le> k"
  then obtain j where k: "k = Suc (Suc j)" by (metis Suc_leD Suc_le_D numeral_2_eq_2 Suc_le_mono)
  obtain l ps where r: "find_insides_loop (Suc (Suc (Suc j))) None [(1, Suc (Suc j))] rest = (l, ps)" by force
  from find_insides_loop_prefix[of "Suc (Suc (Suc j))" None "[(1, Suc (Suc j))]" rest] r
  obtain ps' where "ps = (1, Suc (Suc j)) # ps'" by auto
  then show ?thesis using r by (simp add: k find_insides_def find_insides_loop_run_closed)
qed


text \<open>
  C7 (as stated): a true-run that starts at index 0 is not reported as a pair, both when it
  ends before the signal does and when it continues to the signal's end. This fails for runs
  of two or more samples: at index 1 the stored start \<^verbatim>\<open>0\<close> is falsy, so the start is
  overwritten with 1, which is truthy, and the run is closed and reported from index 1.
\<close>

theorem find_insides_run_at_zero_reported:
  "find_insides [True, True, False] = [(1, 2)] \<and> find_insides [True, True, True] = [(1, 2)]"
  by (simp add: find_insides_def)

text \<open>
  C7 (amended): index 0 is falsy as a run start, so no reported pair starts at index 0.
  A run of a single sample at index 0 is not reported at all, whether the signal ends
  there or goes on (every pair then starts at index 2 or later). A run of \<open>k \<ge> 2\<close>
  samples from index 0 is reported with its start moved to index 1: as \<open>[1, k - 1]\<close>
  when it continues to the signal's end, as \<open>[1, k]\<close> when it ends at index \<open>k\<close>.
\<close>

theorem find_insides_index_zero_falsy:
  "(\<forall>p\<in>set (find_insides sig). fst p \<noteq> 0) \<and>
   find_insides [True] = [] \<and>
   (\<forall>p\<in>set (find_insides (True # False # rest)). 2 \<le> fst p) \<and>
   (2 \<le> k \<longrightarrow>
      find_insides (replicate k True) = [(1, k - 1)] \<and>
      (\<exists>ps. find_insides (replicate k True @ False # rest) = (1, k) # ps))"
  using find_insides_no_zero_start[of sig] find_insides_single_closed[of rest]
    find_insides_run_open[of k] find_insides_run_closed[of k rest]
  by (simp add: find_insides_def)

theorem find_insides_index_zero_falsy_witness:
  "list_all (\<lambda>p. fst p \<noteq> 0) (find_insides [True, False, True, True, False]) \<and>
   find_insides [True] = [] \<and>
   list_all (\<lambda>p. 2 \<le> fst p) (find_insides (True # False # [True, True, False])) \<and>
   (2::nat) \<le> 3 \<and>
   find_insides (replicate 3 True) = [(1, 3 - 1)] \<and>
   (\<exists>ps. find_insides (replicate 3 True @ False # [True, True, False]) = (1, 3) # ps)"
  using find_insides_index_zero_falsy[of "[True, False, True, True, False]" "[True, True, False]" 3]
  by (simp add: list_all_iff)

subsection \<open>Rounding to double precision\<close>

lemma rhe_of_int: "round_half_even (real_of_int n) = n"
  by (simp add: round_half_even_def Let_def)

lemma rhe_bounds: "real_of_int (round_half_even y) - 1 / 2 \<le> y \<and> y \<le> real_of_int (round_half_even y) + 1 / 2"
  unfolding round_half_even_def Let_def by (auto; linarith)

lemma rhe_le: "y \<le> real_of_int N \<Longrightarrow> round_half_even y \<le> N"
proof -
  assume a: "y \<le> real_of_int N"
  have f: "\<lfloor>y\<rfloor> \<le> N" using a by (simp add: floor_le_iff)
  show ?thesis
  proof (cases "\<lfloor>y\<rfloor> = N")
    case True
    then have "y = real_of_int N" using a by linarith
    then show ?thesis by (simp add: rhe_of_int)
  next
    case False
    then have "\<lfloor>y\<rfloor> + 1 \<le> N" using f by simp
    then show ?thesis unfolding round_half_even_def Let_def by auto
  qed
qed

lemma rhe_ge: "real_of_int N \<le> y \<Longrightarrow> N \<le> round_half_even y"
proof -
  assume "real_of_int N \<le> y"
  then have "N \<le> \<lfloor>y\<rfloor>" by (simp add: le_floor_iff)
  then show ?thesis unfolding round_half_even_def Let_def by auto
qed

lemma rhe_half_even: "even n \<Longrightarrow> round_half_even (real_of_int n + 1 / 2) = n"
proof -
  assume e: "even n"
  have f: "\<lfloor>real_of_int n + 1 / 2\<rfloor> = n" by linarith
  show ?thesis unfolding round_half_even_def Let_def f using e by simp
qed

lemma log2_bounds:
  assumes "x \<noteq> 0"
  shows "2 powr real_of_int \<lfloor>log 2 \<bar>x\<bar>\<rfloor> \<le> \<bar>x\<bar>"
    and "\<bar>x\<bar> < 2 powr real_of_int (\<lfloor>log 2 \<bar>x\<bar>\<rfloor> + 1)"
proof -
  have "0 < \<bar>x\<bar>" using assms by simp
  then have "2 powr real_of_int \<lfloor>log 2 \<bar>x\<bar>\<rfloor> \<le> \<bar>x\<bar> \<and> \<bar>x\<bar> < 2 powr (real_of_int \<lfloor>log 2 \<bar>x\<bar>\<rfloor> + 1)"
    using floor_log_eq_powr_iff[of "\<bar>x\<bar>" 2 "\<lfloor>log 2 \<bar>x\<bar>\<rfloor>"] by simp
  then show "2 powr real_of_int \<lfloor>log 2 \<bar>x\<bar>\<rfloor> \<le> \<bar>x\<bar>"
    and "\<bar>x\<bar> < 2 powr real_of_int (\<lfloor>log 2 \<bar>x\<bar>\<rfloor> + 1)" by simp_all
qed

lemma ulp_exponent_ge: "- 1074 \<le> ulp_exponent x"
  by (simp add: ulp_exponent_def)

lemma powr_int_mono: "a \<le> b \<Longrightarrow> 2 powr real_of_int a \<le> 2 powr real_of_int b"
  by (simp add: powr_mono)

lemma powr_int_nat: "0 \<le> e \<Longrightarrow> 2 powr real_of_int e = real_of_int (2 ^ nat e)"
  by (simp add: powr_real_of_int)

lemma quotient_bound:
  assumes "x \<noteq> 0"
  shows "\<bar>x / 2 powr real_of_int (ulp_exponent x)\<bar> < 2 ^ 53"
proof -
  let ?k = "\<lfloor>log 2 \<bar>x\<bar>\<rfloor>" and ?e = "ulp_exponent x"
  have "?k + 1 \<le> ?e + 53" by (simp add: ulp_exponent_def)
  then have "2 powr real_of_int (?k + 1) \<le> 2 powr real_of_int (?e + 53)" by (rule powr_int_mono)
  then have "\<bar>x\<bar> < 2 powr real_of_int (?e + 53)" using log2_bounds(2)[OF assms] by linarith
  also have "2 powr real_of_int (?e + 53) = 2 powr real_of_int ?e * 2 ^ 53"
    by (simp add: powr_add powr_realpow[symmetric] del: powr_realpow)
  finally have "\<bar>x\<bar> / 2 powr real_of_int ?e < 2 ^ 53" by (simp add: field_simps)
  then show ?thesis by (simp add: abs_divide)
qed

lemma round_to_double_form:
  "\<exists>n e. round_to_double x = real_of_int n * 2 powr real_of_int e \<and> \<bar>n\<bar> \<le> 2 ^ 53 \<and> - 1074 \<le> e"
proof (cases "x = 0")
  case True
  have "round_to_double x = real_of_int 0 * 2 powr real_of_int 0 \<and> \<bar>0::int\<bar> \<le> 2 ^ 53 \<and> - 1074 \<le> (0::int)"
    using True by (simp add: round_to_double_def)
  then show ?thesis by blast
next
  case False
  let ?e = "ulp_exponent x"
  let ?q = "x / 2 powr real_of_int ?e"
  let ?n = "round_half_even ?q"
  have q: "\<bar>?q\<bar> < 2 ^ 53" by (rule quotient_bound[OF False])
  have "?q \<le> 2 ^ 53" using q by linarith
  then have "?q \<le> real_of_int (2 ^ 53)" by simp
  then have u: "?n \<le> 2 ^ 53" by (rule rhe_le)
  have "- (2 ^ 53) \<le> ?q" using q by linarith
  then have "real_of_int (- (2 ^ 53)) \<le> ?q" by simp
  then have l: "- (2 ^ 53) \<le> ?n" by (rule rhe_ge)
  have "round_to_double x = real_of_int ?n * 2 powr real_of_int ?e"
    using False by (simp add: round_to_double_def)
  moreover have "\<bar>?n\<bar> \<le> 2 ^ 53" using u l by simp
  ultimately show ?thesis using ulp_exponent_ge[of x] by blast
qed

lemma representable_fixed_aux:
  assumes "\<bar>n\<bar> < 2 ^ 53" and "- 1074 \<le> e"
  shows "round_to_double (real_of_int n * 2 powr real_of_int e) = real_of_int n * 2 powr real_of_int e"
proof (cases "n = 0")
  case True
  then show ?thesis by (simp add: round_to_double_def)
next
  case False
  let ?y = "real_of_int n * 2 powr real_of_int e"
  let ?k = "\<lfloor>log 2 \<bar>?y\<bar>\<rfloor>" and ?u = "ulp_exponent ?y"
  have y0: "?y \<noteq> 0" using False by simp
  have "\<bar>?y\<bar> = \<bar>real_of_int n\<bar> * 2 powr real_of_int e" by (simp add: abs_mult)
  also have "\<dots> < 2 ^ 53 * 2 powr real_of_int e"
  proof -
    have "\<bar>real_of_int n\<bar> < 2 ^ 53" using assms(1) by (metis of_int_abs of_int_less_iff of_int_numeral of_int_power)
    then show ?thesis by (simp add: mult_strict_right_mono)
  qed
  also have "\<dots> = 2 powr real_of_int (e + 53)"
    by (simp add: powr_add powr_realpow[symmetric] del: powr_realpow)
  finally have lt: "\<bar>?y\<bar> < 2 powr real_of_int (e + 53)" .
  have "2 powr real_of_int ?k < 2 powr real_of_int (e + 53)"
    using log2_bounds(1)[OF y0] lt by linarith
  then have "?k < e + 53" by simp
  then have ue: "?u \<le> e" using assms(2) by (simp add: ulp_exponent_def)
  have "?y / 2 powr real_of_int ?u = real_of_int n * 2 powr real_of_int (e - ?u)"
    by (simp add: powr_diff)
  also have "\<dots> = real_of_int (n * 2 ^ nat (e - ?u))"
  proof -
    have "2 powr real_of_int (e - ?u) = real_of_int (2 ^ nat (e - ?u))"
      using ue by (intro powr_int_nat) simp
    then show ?thesis by (simp only: of_int_mult)
  qed
  finally have q: "?y / 2 powr real_of_int ?u = real_of_int (n * 2 ^ nat (e - ?u))" .
  have "round_to_double ?y = real_of_int (round_half_even (?y / 2 powr real_of_int ?u)) * 2 powr real_of_int ?u"
    using y0 unfolding round_to_double_def by (simp only: if_False)
  also have "\<dots> = (?y / 2 powr real_of_int ?u) * 2 powr real_of_int ?u"
    by (simp only: q rhe_of_int)
  also have "\<dots> = ?y" by simp
  finally show ?thesis .
qed

lemma representable_fixed:
  assumes "\<bar>n\<bar> \<le> 2 ^ 53" and "- 1074 \<le> e"
  shows "round_to_double (real_of_int n * 2 powr real_of_int e) = real_of_int n * 2 powr real_of_int e"
proof (cases "\<bar>n\<bar> < 2 ^ 53")
  case True
  then show ?thesis using assms(2) by (rule representable_fixed_aux)
next
  case False
  then have "n = 2 ^ 53 \<or> n = - (2 ^ 53)" using assms(1) by linarith
  then obtain h :: int where h: "n = 2 * h" "\<bar>h\<bar> < 2 ^ 53" by auto
  have "real_of_int n * 2 powr real_of_int e = real_of_int h * 2 powr real_of_int (e + 1)"
    by (simp add: h(1) powr_add)
  moreover have "round_to_double (real_of_int h * 2 powr real_of_int (e + 1))
      = real_of_int h * 2 powr real_of_int (e + 1)"
    using h(2) assms(2) by (intro representable_fixed_aux) simp_all
  ultimately show ?thesis by simp
qed

lemma round_to_double_idem: "round_to_double (round_to_double x) = round_to_double x"
  using round_to_double_form[of x] representable_fixed by auto

lemma round_to_double_int:
  "\<bar>n\<bar> \<le> 2 ^ 53 \<Longrightarrow> round_to_double (real_of_int n) = real_of_int n"
  using representable_fixed[of n 0] by simp

lemma round_to_double_zero [simp]: "round_to_double 0 = 0"
  by (simp add: round_to_double_def)

lemma round_to_double_one [simp]: "round_to_double 1 = 1"
  using round_to_double_int[of 1] by simp

lemma round_to_double_nonneg: "0 \<le> x \<Longrightarrow> 0 \<le> round_to_double x"
proof -
  assume "0 \<le> x"
  then have "real_of_int 0 \<le> x / 2 powr real_of_int (ulp_exponent x)" by simp
  then have "0 \<le> round_half_even (x / 2 powr real_of_int (ulp_exponent x))" by (rule rhe_ge)
  then show ?thesis by (simp add: round_to_double_def)
qed

lemma round_to_double_le_one:
  assumes "0 \<le> x" and "x \<le> 1"
  shows "round_to_double x \<le> 1"
proof (cases "x = 0")
  case True
  then show ?thesis by simp
next
  case False
  let ?k = "\<lfloor>log 2 \<bar>x\<bar>\<rfloor>" and ?u = "ulp_exponent x"
  have "2 powr real_of_int ?k \<le> 2 powr real_of_int 0"
    using log2_bounds(1)[OF False] assms by simp
  then have "?k \<le> 0" by (simp del: powr_zero_eq_one of_int_0)
  then have u: "?u \<le> 0" by (simp add: ulp_exponent_def)
  have "x / 2 powr real_of_int ?u \<le> 1 / 2 powr real_of_int ?u"
    using assms(2) by (simp add: divide_right_mono)
  also have "1 / 2 powr real_of_int ?u = 2 powr real_of_int (- ?u)" by (simp add: powr_minus_divide)
  also have "\<dots> = real_of_int (2 ^ nat (- ?u))" using u by (intro powr_int_nat) simp
  finally have "round_half_even (x / 2 powr real_of_int ?u) \<le> 2 ^ nat (- ?u)" by (rule rhe_le)
  then have "real_of_int (round_half_even (x / 2 powr real_of_int ?u)) \<le> real_of_int (2 ^ nat (- ?u))"
    by (simp only: of_int_le_iff)
  also have "real_of_int (2 ^ nat (- ?u)) = 2 powr real_of_int (- ?u)"
    using u by (intro powr_int_nat[symmetric]) simp
  finally have "real_of_int (round_half_even (x / 2 powr real_of_int ?u)) * 2 powr real_of_int ?u
      \<le> 2 powr real_of_int (- ?u) * 2 powr real_of_int ?u"
    by (simp add: mult_right_mono)
  also have "\<dots> = 1" by (simp add: powr_add[symmetric])
  finally show ?thesis using False by (simp add: round_to_double_def)
qed

lemma round_to_double_grid: "\<exists>j::int. round_to_double x = real_of_int j * 2 powr (- 1074)"
proof -
  obtain n e where f: "round_to_double x = real_of_int n * 2 powr real_of_int e" "- 1074 \<le> e"
    using round_to_double_form[of x] by blast
  have "2 powr real_of_int e = 2 powr real_of_int (e + 1074) * 2 powr (- 1074)"
    by (simp add: powr_add[symmetric])
  also have "2 powr real_of_int (e + 1074) = real_of_int (2 ^ nat (e + 1074))"
    using f(2) by (intro powr_int_nat) simp
  finally have "round_to_double x = real_of_int (n * 2 ^ nat (e + 1074)) * 2 powr (- 1074)"
    using f(1) by simp
  then show ?thesis by blast
qed

lemma round_to_double_grid_nonzero:
  assumes "j \<noteq> 0"
  shows "round_to_double (real_of_int j * 2 powr (- 1074)) \<noteq> 0"
proof
  let ?y = "real_of_int j * 2 powr (- 1074)"
  let ?k = "\<lfloor>log 2 \<bar>?y\<bar>\<rfloor>" and ?u = "ulp_exponent ?y"
  assume z: "round_to_double ?y = 0"
  have y0: "?y \<noteq> 0" using assms by simp
  have "1 \<le> \<bar>real_of_int j\<bar>" using assms by (metis of_int_abs of_int_1_le_iff abs_ge_zero zero_less_abs_iff int_one_le_iff_zero_less)
  then have big: "2 powr (- 1074) \<le> \<bar>?y\<bar>" by (simp add: abs_mult)
  define q where "q = ?y / 2 powr real_of_int ?u"
  have "real_of_int (round_half_even q) * 2 powr real_of_int ?u = 0"
    using z y0 unfolding round_to_double_def q_def by (simp only: if_False)
  then have "round_half_even q = 0" by simp
  then have "\<bar>q\<bar> \<le> 1 / 2" using rhe_bounds[of q] by auto
  moreover have "\<bar>?y\<bar> = \<bar>q\<bar> * 2 powr real_of_int ?u"
    unfolding q_def by (simp add: abs_divide)
  ultimately have "\<bar>?y\<bar> \<le> (1 / 2) * 2 powr real_of_int ?u"
    by (simp add: mult_right_mono)
  moreover have "(1 / 2) * 2 powr real_of_int ?u < 2 powr real_of_int ?u" by simp
  ultimately have small: "\<bar>?y\<bar> < 2 powr real_of_int ?u" by linarith
  show False
  proof (cases "?u = - 1074")
    case True
    then show False using small big by simp
  next
    case False
    then have "?u = ?k - 52" by (simp add: ulp_exponent_def max_def split: if_splits)
    then have "2 powr real_of_int ?u \<le> 2 powr real_of_int ?k" by (simp add: powr_mono)
    then show False using small log2_bounds(1)[OF y0] by linarith
  qed
qed

lemma round_to_double_diff_nonzero:
  assumes "round_to_double a \<noteq> round_to_double b"
  shows "round_to_double (round_to_double a - round_to_double b) \<noteq> 0"
proof -
  obtain i j :: int where "round_to_double a = real_of_int i * 2 powr (- 1074)"
      "round_to_double b = real_of_int j * 2 powr (- 1074)"
    using round_to_double_grid by meson
  then have "round_to_double a - round_to_double b = real_of_int (i - j) * 2 powr (- 1074)" "i - j \<noteq> 0"
    using assms by (auto simp: algebra_simps)
  then show ?thesis using round_to_double_grid_nonzero by metis
qed

lemma to_double_finite:
  "is_finite (to_double x) \<Longrightarrow> to_double x = Fin (round_to_double x) \<and> is_double (round_to_double x)"
  by (auto simp: to_double_def Let_def is_double_def round_to_double_idem split: if_splits)

lemma to_double_is_double: "is_double d \<Longrightarrow> to_double d = Fin d"
  by (auto simp: to_double_def Let_def is_double_def)

lemma to_double_unit:
  assumes "0 \<le> q" and "q \<le> 1"
  shows "to_double q = Fin (round_to_double q)" and "is_double (round_to_double q)"
    and "0 \<le> round_to_double q" and "round_to_double q \<le> 1"
proof -
  show a: "0 \<le> round_to_double q" using assms(1) by (rule round_to_double_nonneg)
  show b: "round_to_double q \<le> 1" using assms by (rule round_to_double_le_one)
  have "\<bar>round_to_double q\<bar> < 2 ^ 1024" using a b by simp
  then show "to_double q = Fin (round_to_double q)" "is_double (round_to_double q)"
    using a b by (simp_all add: to_double_def Let_def is_double_def round_to_double_idem)
qed

lemma to_double_int: "\<bar>n\<bar> \<le> 2 ^ 53 \<Longrightarrow> to_double (real_of_int n) = Fin (real_of_int n)"
proof -
  assume a: "\<bar>n\<bar> \<le> 2 ^ 53"
  have "\<bar>real_of_int n\<bar> \<le> real_of_int (2 ^ 53)" using a by (simp only: of_int_abs[symmetric] of_int_le_iff)
  then have "\<bar>real_of_int n\<bar> < 2 ^ 1024" by simp
  then show ?thesis using round_to_double_int[OF a] by (intro to_double_is_double) (simp add: is_double_def)
qed

lemma to_double_small:
  "to_double 0 = Fin 0" "to_double 1 = Fin 1" "to_double 5 = Fin 5" "to_double 10 = Fin 10"
  "to_double 15 = Fin 15" "to_double 20 = Fin 20" "to_double (- 5) = Fin (- 5)"
  "to_double (- 10) = Fin (- 10)" "to_double (1 / 2) = Fin (1 / 2)" "to_double 100 = Fin 100"
proof -
  show "to_double 0 = Fin 0" "to_double 1 = Fin 1" "to_double 5 = Fin 5" "to_double 10 = Fin 10"
    "to_double 15 = Fin 15" "to_double 20 = Fin 20" "to_double (- 5) = Fin (- 5)"
    "to_double (- 10) = Fin (- 10)" "to_double 100 = Fin 100"
    using to_double_int[of 0] to_double_int[of 1] to_double_int[of 5] to_double_int[of 10]
      to_double_int[of 15] to_double_int[of 20] to_double_int[of "- 5"] to_double_int[of "- 10"]
      to_double_int[of 100]
    by simp_all
  have "round_to_double (real_of_int 1 * 2 powr real_of_int (- 1)) = real_of_int 1 * 2 powr real_of_int (- 1)"
    by (rule representable_fixed) simp_all
  then have "round_to_double (1 / 2) = 1 / 2" by simp
  then show "to_double (1 / 2) = Fin (1 / 2)" by (simp add: to_double_def)
qed

lemma pow_is_double: "e \<le> 1023 \<Longrightarrow> is_double (2 ^ e)" "e \<le> 1023 \<Longrightarrow> is_double (- (2 ^ e))"
proof -
  assume e: "e \<le> 1023"
  have p: "(2::real) ^ e = real_of_int 1 * 2 powr real_of_int (int e)"
    by (simp add: powr_realpow)
  have "round_to_double (real_of_int 1 * 2 powr real_of_int (int e)) = real_of_int 1 * 2 powr real_of_int (int e)"
    by (rule representable_fixed) simp_all
  then have r: "round_to_double (2 ^ e) = 2 ^ e" by (simp only: p)
  have p': "- ((2::real) ^ e) = real_of_int (- 1) * 2 powr real_of_int (int e)"
    by (simp add: powr_realpow)
  have "round_to_double (real_of_int (- 1) * 2 powr real_of_int (int e)) = real_of_int (- 1) * 2 powr real_of_int (int e)"
    by (rule representable_fixed) simp_all
  then have r': "round_to_double (- (2 ^ e)) = - (2 ^ e)" by (simp only: p')
  have "(2::real) ^ e < 2 ^ 1024" using e by (intro power_strict_increasing) simp_all
  then show "is_double (2 ^ e)" "is_double (- (2 ^ e))" using r r' by (simp_all add: is_double_def)
qed

lemma to_double_overflow: "to_double (2 ^ 1024) = PInf"
proof -
  have p: "(2::real) ^ 1024 = real_of_int 1 * 2 powr real_of_int 1024"
    using powr_realpow[of 2 1024] by simp
  have "round_to_double (real_of_int 1 * 2 powr real_of_int 1024) = real_of_int 1 * 2 powr real_of_int 1024"
    by (rule representable_fixed) simp_all
  then have "round_to_double (2 ^ 1024) = 2 ^ 1024" by (simp only: p)
  then show ?thesis by (simp add: to_double_def)
qed

lemma round_to_double_merge: "round_to_double (2 ^ 53 + 1) = 2 ^ 53"
proof -
  define x :: real where "x = 2 ^ 53 + 1"
  have pos: "\<bar>x\<bar> = x" "x \<noteq> 0" by (simp_all add: x_def)
  have fl: "\<lfloor>log 2 x\<rfloor> = 53" using floor_log_eq_powr_iff[of x 2 53] by (simp add: x_def)
  have u: "ulp_exponent x = 1" by (simp add: ulp_exponent_def pos fl)
  have q: "x / 2 powr real_of_int 1 = real_of_int (2 ^ 52) + 1 / 2" by (simp add: x_def)
  have r: "round_half_even (x / 2 powr real_of_int 1) = 2 ^ 52"
    unfolding q by (rule rhe_half_even) simp
  have "round_to_double x = real_of_int (2 ^ 52) * 2 powr real_of_int 1"
    unfolding round_to_double_def u r using pos(2) by (simp only: if_False)
  then show ?thesis unfolding x_def by simp
qed

lemma to_double_merge: "to_double (2 ^ 53 + 1) = Fin (2 ^ 53)" "to_double (2 ^ 53) = Fin (2 ^ 53)"
proof -
  show "to_double (2 ^ 53 + 1) = Fin (2 ^ 53)"
    unfolding to_double_def round_to_double_merge Let_def by simp
  show "to_double (2 ^ 53) = Fin (2 ^ 53)" using to_double_int[of "2 ^ 53"] by simp
qed

lemma round_double_finite_list:
  "\<forall>v\<in>set x. is_finite (round_double v) \<Longrightarrow>
   \<exists>ds. map round_double x = map Fin ds \<and> (\<forall>d\<in>set ds. is_double d)"
proof (induction x)
  case Nil
  then show ?case by simp
next
  case (Cons v x)
  then obtain ds where ds: "map round_double x = map Fin ds" "\<forall>d\<in>set ds. is_double d" by auto
  have f: "is_finite (round_double v)" using Cons.prems by simp
  then obtain r where v: "v = Fin r" by (cases v) auto
  then have "round_double v = Fin (round_to_double r)" "is_double (round_to_double r)"
    using f to_double_finite[of r] by simp_all
  then have "map round_double (v # x) = map Fin (round_to_double r # ds) \<and>
      (\<forall>d\<in>set (round_to_double r # ds). is_double d)" using ds by simp
  then show ?case by blast
qed

lemma round_double_idem: "round_double (round_double v) = round_double v"
proof (cases v)
  case (Fin r)
  show ?thesis
  proof (cases "is_finite (to_double r)")
    case True
    then show ?thesis using to_double_finite[of r] to_double_is_double Fin by simp
  next
    case False
    then show ?thesis using Fin by (cases "to_double r") simp_all
  qed
qed simp_all

subsection \<open>\<^verbatim>\<open>normalize\<close>\<close>

lemma normalize_doctest:
  "normalize (map Fin [10, 15, 20]) = Inr (map Fin [0, 1/2, 1])"
  by (simp add: normalize_def fsub_def to_double_small)

lemma fold_fminimum_Fin:
  "fold (\<lambda>v acc. fminimum acc v) (map Fin rs) (Fin a) = Fin (fold (\<lambda>v acc. min acc v) rs a)"
  by (induction rs arbitrary: a) (auto simp: min_def)

lemma fold_fmaximum_Fin:
  "fold (\<lambda>v acc. fmaximum acc v) (map Fin rs) (Fin a) = Fin (fold (\<lambda>v acc. max acc v) rs a)"
  by (induction rs arbitrary: a) (auto simp: max_def)

lemma fold_min_Min: "fold (\<lambda>v acc. min acc v) rs (a::real) = Min (set (a # rs))"
proof -
  have "(\<lambda>v acc. min acc v) = (min :: real \<Rightarrow> real \<Rightarrow> real)" by (auto simp: fun_eq_iff)
  then show ?thesis using Min.set_eq_fold[of a rs] by simp
qed

lemma fold_max_Max: "fold (\<lambda>v acc. max acc v) rs (a::real) = Max (set (a # rs))"
proof -
  have "(\<lambda>v acc. max acc v) = (max :: real \<Rightarrow> real \<Rightarrow> real)" by (auto simp: fun_eq_iff)
  then show ?thesis using Max.set_eq_fold[of a rs] by simp
qed

lemma amin_Fin: "rs \<noteq> [] \<Longrightarrow> amin (map Fin rs) = Inr (Fin (Min (set rs)))"
  by (cases rs) (simp_all add: fold_fminimum_Fin fold_min_Min)

lemma amax_Fin: "rs \<noteq> [] \<Longrightarrow> amax (map Fin rs) = Inr (Fin (Max (set rs)))"
  by (cases rs) (simp_all add: fold_fmaximum_Fin fold_max_Max)

lemma normalize_rounded: "normalize (map round_double x) = normalize x"
proof -
  have "map round_double (map round_double x) = map round_double x"
    by (simp add: round_double_idem)
  then show ?thesis unfolding normalize_def by (simp only:)
qed

lemma normalize_unit:
  assumes "rs \<noteq> []" and "\<forall>r\<in>set rs. is_double r \<and> 0 \<le> r \<and> r \<le> 1"
    and "0 \<in> set rs" and "1 \<in> set rs"
  shows "normalize (map Fin rs) = Inr (map Fin rs)"
proof -
  have c: "map round_double (map Fin rs) = map Fin rs"
    using assms(2) by (simp add: to_double_is_double)
  have mn: "Min (set rs) = 0" using assms(2,3) by (intro Min_eqI) auto
  have mx: "Max (set rs) = 1" using assms(2,4) by (intro Max_eqI) auto
  have s: "map (\<lambda>x. round_double (fsub x (Fin 0))) (map Fin rs) = map Fin rs"
    using assms(2) by (simp add: fsub_def to_double_is_double)
  have d: "map (\<lambda>x. round_double (fdiv x (Fin 1))) (map Fin rs) = map Fin rs"
    using assms(2) by (simp add: to_double_is_double)
  show ?thesis
    unfolding normalize_def Let_def
    by (simp only: c amin_Fin[OF assms(1)] mn sum.case s amax_Fin[OF assms(1)] mx d)
qed

lemma normalize_doubles:
  assumes "\<forall>d\<in>set ds. is_double d" and "a \<in> set ds" and "b \<in> set ds" and "a \<noteq> b"
    and "\<forall>d\<in>set ds. \<forall>e\<in>set ds. is_finite (to_double (d - e))"
  shows "\<exists>rs. normalize (map Fin ds) = Inr (map Fin rs) \<and>
              normalize (map Fin rs) = Inr (map Fin rs)"
proof -
  define m where "m = Min (set ds)"
  define as where "as = map (\<lambda>d. round_to_double (d - m)) ds"
  define D where "D = Max (set as)"
  define rs where "rs = map (\<lambda>a. round_to_double (a / D)) as"
  have ne: "ds \<noteq> []" using assms(2) by auto
  have m_in: "m \<in> set ds" unfolding m_def using ne by (intro Min_in) auto
  have m_le: "m \<le> d" if "d \<in> set ds" for d unfolding m_def using that by (intro Min_le) auto
  have c: "map round_double (map Fin ds) = map Fin ds"
    using assms(1) by (simp add: to_double_is_double)
  have sub: "map (\<lambda>x. round_double (fsub x (Fin m))) (map Fin ds) = map Fin as"
  proof -
    have "round_double (fsub (Fin d) (Fin m)) = Fin (round_to_double (d - m))" if "d \<in> set ds" for d
      using assms(5) that m_in to_double_finite[of "d - m"] by (simp add: fsub_def)
    then show ?thesis by (simp add: as_def)
  qed
  have as_ne: "as \<noteq> []" using ne by (simp add: as_def)
  have as_nonneg: "0 \<le> x" if "x \<in> set as" for x
    using that m_le by (auto simp: as_def intro!: round_to_double_nonneg)
  have D_in: "D \<in> set as" unfolding D_def using as_ne by (intro Max_in) auto
  have D_ge: "x \<le> D" if "x \<in> set as" for x unfolding D_def using that by (intro Max_ge) auto
  obtain d where d: "d \<in> set ds" "d \<noteq> m" using assms(2,3,4) by metis
  have "round_to_double (round_to_double d - round_to_double m) \<noteq> 0"
    using d m_in assms(1) by (intro round_to_double_diff_nonzero) (simp add: is_double_def)
  then have "round_to_double (d - m) \<noteq> 0" using d(1) m_in assms(1) by (simp add: is_double_def)
  moreover have "round_to_double (d - m) \<in> set as" using d(1) by (simp add: as_def)
  ultimately have D_pos: "0 < D" using as_nonneg D_ge by fastforce
  have q: "0 \<le> x / D \<and> x / D \<le> 1" if "x \<in> set as" for x
    using as_nonneg[OF that] D_ge[OF that] D_pos by simp
  have dv: "map (\<lambda>x. round_double (fdiv x (Fin D))) (map Fin as) = map Fin rs"
  proof -
    have "round_double (fdiv (Fin x) (Fin D)) = Fin (round_to_double (x / D))" if "x \<in> set as" for x
      using q[OF that] D_pos to_double_unit(1)[of "x / D"] by simp
    then show ?thesis by (simp add: rs_def)
  qed
  have first: "normalize (map Fin ds) = Inr (map Fin rs)"
    unfolding normalize_def Let_def
    by (simp only: c amin_Fin[OF ne] m_def[symmetric] sum.case sub amax_Fin[OF as_ne]
        D_def[symmetric] dv)
  have rs_ne: "rs \<noteq> []" using as_ne by (simp add: rs_def)
  have unit: "\<forall>r\<in>set rs. is_double r \<and> 0 \<le> r \<and> r \<le> 1"
    using q to_double_unit(2,3,4) by (auto simp: rs_def)
  have "0 \<in> set as" unfolding as_def set_map using m_in by (intro image_eqI[of _ _ m]) simp_all
  then have zero: "0 \<in> set rs" unfolding rs_def set_map by (intro image_eqI[of _ _ 0]) simp_all
  have one: "1 \<in> set rs" unfolding rs_def set_map using D_in D_pos
    by (intro image_eqI[of _ _ D]) simp_all
  have "normalize (map Fin rs) = Inr (map Fin rs)"
    using rs_ne unit zero one by (rule normalize_unit)
  with first show ?thesis by blast
qed

lemma array_equal_Fin: "array_equal (map Fin rs) (map Fin rs)"
  by (induction rs) (simp_all add: array_equal_def)

lemma normalize_merge:
  "normalize [Fin (2 ^ 53), Fin (2 ^ 53 + 1)] = Inr [NaN, NaN]"
proof -
  have z: "to_double 0 = Fin 0" by (simp add: to_double_def)
  show ?thesis
    by (simp add: normalize_def to_double_merge fsub_def z del: power_numeral)
qed

text \<open>
  C6: \<^verbatim>\<open>normalize\<close> is not idempotent on every finite array whose elements are not all
  equal. On \<open>[- 2 ^ 1023, 2 ^ 1023]\<close> the difference of maximum and minimum overflows to
  infinity: the first call returns \<open>[0, NaN]\<close> and the second \<open>[NaN, NaN]\<close>. On the integers
  \<open>[2 ^ 53, 2 ^ 53 + 1]\<close> the conversion to float makes both elements \<open>2 ^ 53\<close>, the array
  is constant from there on and both calls return \<open>[NaN, NaN]\<close>, which is not equal to
  itself under \<^verbatim>\<open>==\<close>.
\<close>

theorem normalize_overflow:
  "normalize [Fin (- (2 ^ 1023)), Fin (2 ^ 1023)] = Inr [Fin 0, NaN] \<and>
   normalize [Fin 0, NaN] = Inr [NaN, NaN] \<and>
   \<not> array_equal [NaN, NaN] [Fin 0, NaN] \<and>
   normalize [Fin (2 ^ 53), Fin (2 ^ 53 + 1)] = Inr [NaN, NaN] \<and>
   normalize [NaN, NaN] = Inr [NaN, NaN] \<and>
   \<not> array_equal [NaN, NaN] [NaN, NaN]"
proof -
  have a: "to_double (- (2 ^ 1023)) = Fin (- (2 ^ 1023))" "to_double (2 ^ 1023) = Fin (2 ^ 1023)"
    using pow_is_double[of 1023] by (simp_all add: to_double_is_double)
  have b: "(2::real) ^ 1023 + 2 ^ 1023 = 2 ^ 1024" by simp
  have z: "to_double 0 = Fin 0" by (simp add: to_double_def)
  have 1: "normalize [Fin (- (2 ^ 1023)), Fin (2 ^ 1023)] = Inr [Fin 0, NaN]"
    by (simp add: normalize_def a fsub_def b to_double_overflow z del: power_numeral)
  have 2: "normalize [Fin 0, NaN] = Inr [NaN, NaN]"
    by (simp add: normalize_def z fsub_def)
  have 3: "\<not> array_equal [NaN, NaN] [Fin 0, NaN]" by (simp add: array_equal_def)
  have 4: "normalize [NaN, NaN] = Inr [NaN, NaN]" by (simp add: normalize_def fsub_def)
  have 5: "\<not> array_equal [NaN, NaN] [NaN, NaN]" by (simp add: array_equal_def)
  show ?thesis using 1 2 3 4 5 normalize_merge by blast
qed

text \<open>
  C6, as the code has it: \<^verbatim>\<open>normalize\<close> is idempotent on every array whose elements,
  converted to float, are finite and not all equal, and whose differences stay finite in
  float arithmetic (so that maximum minus minimum does not overflow). For such an array
  \<open>x\<close>, \<^verbatim>\<open>normalize(x)\<close> returns an array \<open>y\<close> and \<^verbatim>\<open>normalize(y)\<close> an array equal to
  \<open>y\<close> in every position: after the first call every element is a double between 0 and
  1, the minimum is 0 and the maximum is 1, and \<open>v - 0\<close> and \<open>v / 1\<close> are exact.
\<close>

theorem normalize_idempotent:
  assumes "\<forall>v\<in>set x. is_finite (round_double v)"
    and "v \<in> set x" and "w \<in> set x" and "round_double v \<noteq> round_double w"
    and "\<forall>v\<in>set x. \<forall>w\<in>set x.
           is_finite (round_double (fsub (round_double v) (round_double w)))"
  shows "\<exists>y z. normalize x = Inr y \<and> normalize y = Inr z \<and> array_equal z y"
proof -
  obtain ds where ds: "map round_double x = map Fin ds" "\<forall>d\<in>set ds. is_double d"
    using round_double_finite_list[OF assms(1)] by blast
  have mem: "\<exists>d\<in>set ds. round_double u = Fin d" if "u \<in> set x" for u
  proof -
    have "round_double u \<in> set (map round_double x)" using that by simp
    then show ?thesis unfolding ds(1) by auto
  qed
  have mem': "\<exists>u\<in>set x. round_double u = Fin d" if "d \<in> set ds" for d
  proof -
    have "Fin d \<in> set (map round_double x)" unfolding ds(1) using that by simp
    then show ?thesis by auto
  qed
  obtain a b where ab: "a \<in> set ds" "b \<in> set ds" "a \<noteq> b"
    using mem[OF assms(2)] mem[OF assms(3)] assms(4) by auto
  have fin: "\<forall>d\<in>set ds. \<forall>e\<in>set ds. is_finite (to_double (d - e))"
  proof (intro ballI)
    fix d e assume "d \<in> set ds" "e \<in> set ds"
    then obtain u u' where "u \<in> set x" "round_double u = Fin d" "u' \<in> set x" "round_double u' = Fin e"
      using mem' by meson
    then show "is_finite (to_double (d - e))" using assms(5) by (force simp: fsub_def)
  qed
  obtain rs where rs: "normalize (map Fin ds) = Inr (map Fin rs)"
      "normalize (map Fin rs) = Inr (map Fin rs)"
    using normalize_doubles[OF ds(2) ab fin] by blast
  have "normalize x = Inr (map Fin rs)"
    using rs(1) normalize_rounded[of x] by (simp only: ds(1))
  then show ?thesis using rs(2) array_equal_Fin by blast
qed

theorem normalize_idempotent_witness:
  "\<exists>y z. normalize [Fin 10, Fin 15, Fin 20] = Inr y \<and> normalize y = Inr z \<and> array_equal z y"
  using normalize_idempotent[of "[Fin 10, Fin 15, Fin 20]" "Fin 10" "Fin 15"]
  by (simp add: to_double_small fsub_def)

lemma fminimum_same: "fminimum c c = c"
  by (cases c) simp_all

lemma fmaximum_same: "fmaximum c c = c"
  by (cases c) simp_all

lemma amin_replicate: "amin (replicate (Suc n) c) = Inr c"
proof -
  have "fold (\<lambda>v acc. fminimum acc v) (replicate n c) c = c"
    by (induction n) (simp_all add: fminimum_same)
  then show ?thesis by (simp del: fold_replicate)
qed

lemma amax_replicate: "amax (replicate (Suc n) c) = Inr c"
proof -
  have "fold (\<lambda>v acc. fmaximum acc v) (replicate n c) c = c"
    by (induction n) (simp_all add: fmaximum_same)
  then show ?thesis by (simp del: fold_replicate)
qed

lemma normalize_replicate:
  "normalize (replicate (Suc n) (Fin a)) = Inr (replicate (Suc n) NaN)"
proof -
  define c where "c = round_double (Fin a)"
  define z where "z = round_double (fsub c c)"
  have z0: "to_double 0 = Fin 0" by (simp add: to_double_def)
  have "c = PInf \<or> c = NInf \<or> (\<exists>d. c = Fin d)"
    unfolding c_def by (auto simp: to_double_def Let_def)
  then have "z = Fin 0 \<or> z = NaN" unfolding z_def by (auto simp: fsub_def z0)
  then have zz: "round_double (fdiv z z) = NaN" by auto
  have 1: "map round_double (replicate (Suc n) (Fin a)) = replicate (Suc n) c"
    unfolding c_def by (simp only: map_replicate)
  have 2: "map (\<lambda>x. round_double (fsub x c)) (replicate (Suc n) c) = replicate (Suc n) z"
    unfolding z_def by (simp only: map_replicate)
  have 3: "map (\<lambda>x. round_double (fdiv x z)) (replicate (Suc n) z) = replicate (Suc n) NaN"
    by (simp only: map_replicate zz)
  show ?thesis
    unfolding normalize_def Let_def
    by (simp only: 1 amin_replicate sum.case 2 amax_replicate 3)
qed

text \<open>
  C9: \<^verbatim>\<open>normalize\<close> on a constant array. For every non-empty array whose elements all
  equal one finite value, the minimum is that value, the divisor (the maximum after the
  minimum is subtracted) is zero, and the unguarded division \<open>0 / 0\<close> makes every element
  of the returned array NaN: the call does not raise, and the result is not finite.
\<close>

theorem normalize_constant_not_finite:
  assumes "x \<noteq> []" and "\<forall>w\<in>set x. w = Fin a"
  shows "amin x = Inr (Fin a) \<and> amax (map (\<lambda>v. fsub v (Fin a)) x) = Inr (Fin 0) \<and>
         normalize x = Inr (replicate (length x) NaN)"
proof -
  have r: "replicate (length x) (Fin a) = x"
    using assms(2) by (intro replicate_length_same) blast
  obtain n where n: "length x = Suc n" using assms(1) by (cases x) auto
  have x: "x = replicate (Suc n) (Fin a)" using r unfolding n by (rule sym)
  have 1: "amin x = Inr (Fin a)" unfolding x by (rule amin_replicate)
  have 2: "map (\<lambda>v. fsub v (Fin a)) x = replicate (Suc n) (Fin 0)" by (simp add: x fsub_def)
  have 3: "amax (replicate (Suc n) (Fin 0)) = Inr (Fin 0)" by (rule amax_replicate)
  have 4: "normalize x = Inr (replicate (length x) NaN)"
    unfolding n unfolding x by (rule normalize_replicate)
  show ?thesis using 1 2 3 4 by simp
qed

theorem normalize_constant_not_finite_witness:
  "amin [Fin 5, Fin 5, Fin 5] = Inr (Fin 5) \<and>
   amax (map (\<lambda>v. fsub v (Fin 5)) [Fin 5, Fin 5, Fin 5]) = Inr (Fin 0) \<and>
   normalize [Fin 5, Fin 5, Fin 5] = Inr (replicate (length [Fin 5, Fin 5, Fin 5 :: fval]) NaN)"
  using normalize_constant_not_finite[of "[Fin 5, Fin 5, Fin 5]" 5]
  by simp

subsection \<open>\<^verbatim>\<open>threshold_outliers\<close>\<close>

lemma size_of_setitem_mask:
  "length sel = size_of d \<Longrightarrow> size_of (setitem_mask sel v d) = size_of d"
  by (cases d) simp_all

lemma is_int_array_setitem_mask: "is_int_array (setitem_mask sel v d) = is_int_array d"
  by (cases d) simp_all

lemma length_float_values: "length (float_values d) = size_of d"
  by (cases d) simp_all

lemma float_values_setitem_mask:
  "i < size_of d \<Longrightarrow>
   float_values (setitem_mask (map P (float_values d)) v d) ! i =
     (if P (float_values d ! i) then (if is_int_array d then real_of_int (trunc v) else v)
      else float_values d ! i)"
  by (cases d) simp_all

lemma threshold_outliers_eq:
  assumes "cells h data = Some arr"
  shows "threshold_outliers data times_std h =
     Some (fresh h,
       h\<lparr>cells := (cells h)(fresh h \<mapsto>
          (let m = median (float_values arr); s = std (float_values arr);
               d1 = setitem_mask (map (\<lambda>x. x - m > times_std * s) (float_values arr))
                      (m + times_std * s) arr
           in setitem_mask (map (\<lambda>x. x - m < 0 \<and> \<bar>x - m\<bar> > times_std * s) (float_values d1))
                (m - times_std * s) d1)),
         fresh := Suc (fresh h)\<rparr>)"
  using assms by (simp add: threshold_outliers_def copy_def update_array_def Let_def)


lemma threshold_outliers_returns_result:
  assumes "cells h data = Some arr"
  shows "threshold_outliers data times_std h =
     Some (fresh h,
       h\<lparr>cells := (cells h)(fresh h \<mapsto> threshold_outliers_result arr times_std),
         fresh := Suc (fresh h)\<rparr>)"
  using threshold_outliers_eq[OF assms, of times_std]
  by (simp add: threshold_outliers_result_def)

lemma std_nonneg: "0 \<le> std xs"
  unfolding std_def mean_def by (intro real_sqrt_ge_zero divide_nonneg_nonneg sum_list_nonneg) auto

lemma threshold_outliers_pointwise:
  assumes "cells h data = Some arr"
  shows "\<exists>r h' res. threshold_outliers data times_std h = Some (r, h') \<and>
           cells h' r = Some res \<and> size_of res = size_of arr \<and>
           (\<forall>i<size_of arr. float_values res ! i =
              (let m = median (float_values arr);
                   thr = times_std * std (float_values arr);
                   x = float_values arr ! i;
                   upper = (if is_int_array arr then real_of_int (trunc (m + thr)) else m + thr);
                   lower = (if is_int_array arr then real_of_int (trunc (m - thr)) else m - thr);
                   y = (if x - m > thr then upper else x)
               in if y - m < 0 \<and> \<bar>y - m\<bar> > thr then lower else y))"
proof -
  define m where "m = median (float_values arr)"
  define s where "s = std (float_values arr)"
  define d1 where "d1 = setitem_mask (map (\<lambda>x. x - m > times_std * s) (float_values arr))
                      (m + times_std * s) arr"
  define d2 where "d2 = setitem_mask
      (map (\<lambda>x. x - m < 0 \<and> \<bar>x - m\<bar> > times_std * s) (float_values d1)) (m - times_std * s) d1"
  define h' where "h' = h\<lparr>cells := (cells h)(fresh h \<mapsto> d2), fresh := Suc (fresh h)\<rparr>"
  have run: "threshold_outliers data times_std h = Some (fresh h, h')"
    using threshold_outliers_eq[OF assms, of times_std]
    by (simp add: h'_def d2_def d1_def m_def s_def Let_def)
  have s1: "size_of d1 = size_of arr"
    by (simp add: d1_def size_of_setitem_mask length_float_values)
  have s2: "size_of d2 = size_of arr"
    by (simp add: d2_def size_of_setitem_mask length_float_values s1)
  have i1: "is_int_array d1 = is_int_array arr"
    by (simp add: d1_def is_int_array_setitem_mask)
  have v1: "float_values d1 ! i =
      (if float_values arr ! i - m > times_std * s
       then (if is_int_array arr then real_of_int (trunc (m + times_std * s)) else m + times_std * s)
       else float_values arr ! i)" if "i < size_of arr" for i
    unfolding d1_def using that by (simp add: float_values_setitem_mask)
  have v2: "float_values d2 ! i =
      (if float_values d1 ! i - m < 0 \<and> \<bar>float_values d1 ! i - m\<bar> > times_std * s
       then (if is_int_array arr then real_of_int (trunc (m - times_std * s)) else m - times_std * s)
       else float_values d1 ! i)" if "i < size_of arr" for i
    unfolding d2_def by (subst float_values_setitem_mask) (use that s1 i1 in auto)
  have res: "cells h' (fresh h) = Some d2" by (simp add: h'_def)
  have "float_values d2 ! i =
              (let m = median (float_values arr);
                   thr = times_std * std (float_values arr);
                   x = float_values arr ! i;
                   upper = (if is_int_array arr then real_of_int (trunc (m + thr)) else m + thr);
                   lower = (if is_int_array arr then real_of_int (trunc (m - thr)) else m - thr);
                   y = (if x - m > thr then upper else x)
               in if y - m < 0 \<and> \<bar>y - m\<bar> > thr then lower else y)" if "i < size_of arr" for i
    unfolding Let_def m_def[symmetric] s_def[symmetric] v2[OF that] v1[OF that] by (rule refl)
  then show ?thesis using run res s2 by blast
qed

lemma threshold_outliers_float_direct:
  assumes "cells h data = Some (FloatArray xs)" and "0 \<le> times_std"
  shows "\<exists>r h' ys. threshold_outliers data times_std h = Some (r, h') \<and>
           cells h' r = Some (FloatArray ys) \<and> length ys = length xs \<and>
           (\<forall>i<length xs. ys ! i =
              (let m = median xs; thr = times_std * std xs; x = xs ! i
               in if x - m > thr then m + thr
                  else if x - m < 0 \<and> \<bar>x - m\<bar> > thr then m - thr else x))"
proof -
  obtain r h' res where r: "threshold_outliers data times_std h = Some (r, h')"
      "cells h' r = Some res" "size_of res = size_of (FloatArray xs)"
      "\<forall>i<size_of (FloatArray xs). float_values res ! i =
              (let m = median (float_values (FloatArray xs));
                   thr = times_std * std (float_values (FloatArray xs));
                   x = float_values (FloatArray xs) ! i;
                   upper = (if is_int_array (FloatArray xs) then real_of_int (trunc (m + thr)) else m + thr);
                   lower = (if is_int_array (FloatArray xs) then real_of_int (trunc (m - thr)) else m - thr);
                   y = (if x - m > thr then upper else x)
               in if y - m < 0 \<and> \<bar>y - m\<bar> > thr then lower else y)"
    using threshold_outliers_pointwise[OF assms(1), of times_std] by blast
  have "is_int_array res = is_int_array (FloatArray xs)"
    using threshold_outliers_eq[OF assms(1), of times_std] r(1,2)
    by (auto simp: Let_def is_int_array_setitem_mask)
  then obtain ys where ys: "res = FloatArray ys" by (cases res) auto
  have thr: "0 \<le> times_std * std xs" using assms(2) std_nonneg by simp
  have "\<forall>i<length xs. ys ! i =
              (let m = median xs; thr = times_std * std xs; x = xs ! i
               in if x - m > thr then m + thr
                  else if x - m < 0 \<and> \<bar>x - m\<bar> > thr then m - thr else x)"
    using r(4) thr unfolding ys Let_def by (auto split: if_splits)
  then show ?thesis using r(1,2,3) ys by auto
qed


lemma doctest_median: "median [10, 9, 11, 40, 8, 12, 14, 7] = 21 / 2"
  by (simp add: median_def)

lemma doctest_std: "std [10, 9, 11, 40, 8, 12, 14, 7] = sqrt (6519 / 64)"
  by (simp add: std_def mean_def power2_eq_square)

lemma doctest_std_bounds: "19 / 2 < sqrt (6519 / 64)" "sqrt (6519 / 64) < 21 / 2"
proof -
  show "19 / 2 < sqrt (6519 / 64)" by (rule real_less_rsqrt) (simp add: power2_eq_square)
  show "sqrt (6519 / 64) < 21 / 2" by (rule real_less_lsqrt) (simp_all add: power2_eq_square)
qed

lemma doctest_trunc: "trunc (21 / 2 + sqrt (6519 / 64)) = 20"
proof -
  have "\<lfloor>21 / 2 + sqrt (6519 / 64)\<rfloor> = 20"
    using doctest_std_bounds by (intro floor_unique) simp_all
  then show ?thesis using doctest_std_bounds by (simp add: trunc_def)
qed

lemma threshold_outliers_doctest:
  assumes "cells h data = Some (IntArray [10, 9, 11, 40, 8, 12, 14, 7])"
  shows "\<exists>r h'. threshold_outliers data 1 h = Some (r, h') \<and>
           cells h' r = Some (IntArray [10, 9, 11, 20, 8, 12, 14, 7])"
proof -
  define s where "s = sqrt (6519 / 64)"
  have b: "19 / 2 < s" "s < 21 / 2" using doctest_std_bounds by (simp_all add: s_def)
  have t: "trunc (21 / 2 + s) = 20" using doctest_trunc by (simp add: s_def)
  have d1: "setitem_mask (map (\<lambda>x. x - 21 / 2 > 1 * s) [10, 9, 11, 40, 8, 12, 14, 7])
              (21 / 2 + 1 * s) (IntArray [10, 9, 11, 40, 8, 12, 14, 7])
            = IntArray [10, 9, 11, 20, 8, 12, 14, 7]"
    using b t by simp
  have d2: "setitem_mask (map (\<lambda>x. x - 21 / 2 < 0 \<and> \<bar>x - 21 / 2\<bar> > 1 * s) [10, 9, 11, 20, 8, 12, 14, 7])
              (21 / 2 - 1 * s) (IntArray [10, 9, 11, 20, 8, 12, 14, 7])
            = IntArray [10, 9, 11, 20, 8, 12, 14, 7]"
    using b by simp
  have fv: "float_values (IntArray [10, 9, 11, 40, 8, 12, 14, 7]) = [10, 9, 11, 40, 8, 12, 14, 7]"
    and fv2: "float_values (IntArray [10, 9, 11, 20, 8, 12, 14, 7]) = [10, 9, 11, 20, 8, 12, 14, 7]"
    by simp_all
  have run: "threshold_outliers data 1 h =
      Some (fresh h,
        h\<lparr>cells := (cells h)(fresh h \<mapsto> IntArray [10, 9, 11, 20, 8, 12, 14, 7]),
          fresh := Suc (fresh h)\<rparr>)"
    using threshold_outliers_eq[OF assms, of 1]
    by (simp only: Let_def fv doctest_median doctest_std s_def[symmetric] d1 fv2 d2)
  show ?thesis unfolding run by simp
qed


text \<open>
  C5: \<^verbatim>\<open>threshold_outliers(data, times_std)\<close> takes the median and the standard
  deviation of the data, sets every value whose excess above the median exceeds
  \<open>times_std * std\<close> to \<open>median + times_std * std\<close>, and then, separately, sets every
  value of the array so updated that lies below the median by more than
  \<open>times_std * std\<close> to \<open>median - times_std * std\<close>; a bound stored into an integer
  array is truncated. For a float array and a non-negative \<open>times_std\<close> the two clamps
  do not interact and each element is decided by its original value. In particular
  \<^verbatim>\<open>threshold_outliers([10, 9, 11, 40, 8, 12, 14, 7], times_std=1.0)\<close> returns
  \<^verbatim>\<open>[10, 9, 11, 20, 8, 12, 14, 7]\<close>.
\<close>

theorem threshold_outliers_clamps:
  "(cells h data = Some arr \<longrightarrow>
      (\<exists>r h' res. threshold_outliers data times_std h = Some (r, h') \<and>
         cells h' r = Some res \<and> size_of res = size_of arr \<and>
         (\<forall>i<size_of arr. float_values res ! i =
            (let m = median (float_values arr);
                 thr = times_std * std (float_values arr);
                 x = float_values arr ! i;
                 upper = (if is_int_array arr then real_of_int (trunc (m + thr)) else m + thr);
                 lower = (if is_int_array arr then real_of_int (trunc (m - thr)) else m - thr);
                 y = (if x - m > thr then upper else x)
             in if y - m < 0 \<and> \<bar>y - m\<bar> > thr then lower else y)))) \<and>
   (cells hf dataf = Some (FloatArray xs) \<and> 0 \<le> t \<longrightarrow>
      (\<exists>r h' ys. threshold_outliers dataf t hf = Some (r, h') \<and>
         cells h' r = Some (FloatArray ys) \<and> length ys = length xs \<and>
         (\<forall>i<length xs. ys ! i =
            (let m = median xs; thr = t * std xs; x = xs ! i
             in if x - m > thr then m + thr
                else if x - m < 0 \<and> \<bar>x - m\<bar> > thr then m - thr else x)))) \<and>
   (cells he datae = Some (IntArray [10, 9, 11, 40, 8, 12, 14, 7]) \<longrightarrow>
      (\<exists>r h'. threshold_outliers datae 1 he = Some (r, h') \<and>
         cells h' r = Some (IntArray [10, 9, 11, 20, 8, 12, 14, 7])))"
  using threshold_outliers_pointwise[of h data arr times_std]
    threshold_outliers_float_direct[of hf dataf xs t]
    threshold_outliers_doctest[of he datae]
  by blast

theorem threshold_outliers_clamps_witness:
  "(\<exists>r h' res. threshold_outliers 0 1
        \<lparr>cells = [0 \<mapsto> IntArray [10, 9, 11, 40, 8, 12, 14, 7]], fresh = 1\<rparr> = Some (r, h') \<and>
      cells h' r = Some res \<and> size_of res = 8) \<and>
   (\<exists>r h' ys. threshold_outliers 0 2 \<lparr>cells = [0 \<mapsto> FloatArray [1, 2, 6]], fresh = 1\<rparr>
        = Some (r, h') \<and>
      cells h' r = Some (FloatArray ys) \<and> length ys = 3) \<and>
   (\<exists>r h'. threshold_outliers 0 1
        \<lparr>cells = [0 \<mapsto> IntArray [10, 9, 11, 40, 8, 12, 14, 7]], fresh = 1\<rparr> = Some (r, h') \<and>
      cells h' r = Some (IntArray [10, 9, 11, 20, 8, 12, 14, 7]))"
proof -
  let ?h = "\<lparr>cells = [0 \<mapsto> IntArray [10, 9, 11, 40, 8, 12, 14, 7]], fresh = 1\<rparr>"
  let ?hf = "\<lparr>cells = [0 \<mapsto> FloatArray [1, 2, 6]], fresh = 1\<rparr>"
  have a: "cells ?h 0 = Some (IntArray [10, 9, 11, 40, 8, 12, 14, 7])" by simp
  have b: "cells ?hf 0 = Some (FloatArray [1, 2, 6]) \<and> (0::real) \<le> 2" by simp
  note t = threshold_outliers_clamps[of ?h 0 "IntArray [10, 9, 11, 40, 8, 12, 14, 7]" 1
      ?hf 0 "[1, 2, 6]" 2 ?h 0]
  from t a have 1: "\<exists>r h' res. threshold_outliers 0 1 ?h = Some (r, h') \<and>
      cells h' r = Some res \<and> size_of res = 8" by auto
  from t b have 2: "\<exists>r h' ys. threshold_outliers 0 2 ?hf = Some (r, h') \<and>
      cells h' r = Some (FloatArray ys) \<and> length ys = 3" by auto
  from t a have 3: "\<exists>r h'. threshold_outliers 0 1 ?h = Some (r, h') \<and>
      cells h' r = Some (IntArray [10, 9, 11, 20, 8, 12, 14, 7])" by blast
  from 1 2 3 show ?thesis by blast
qed

text \<open>
  C10: \<^verbatim>\<open>threshold_outliers\<close> never mutates its argument. In every well-formed store
  that holds the argument array, the call returns a reference to a new array (one the
  store did not hold before); the argument array, and every other array of the store,
  is unchanged after the call; the new array has the length and the dtype of the
  argument, so that in an integer array every element is either the original one or a
  clamp bound truncated to an integer.
\<close>

theorem threshold_outliers_no_mutation:
  assumes "wf_store h" and "cells h data = Some arr"
  shows "\<exists>r h' res. threshold_outliers data times_std h = Some (r, h') \<and>
           r \<noteq> data \<and> cells h r = None \<and>
           cells h' data = Some arr \<and> (\<forall>a. a \<noteq> r \<longrightarrow> cells h' a = cells h a) \<and>
           cells h' r = Some res \<and> size_of res = size_of arr \<and>
           is_int_array res = is_int_array arr \<and>
           (is_int_array arr \<longrightarrow>
              (\<forall>i<size_of arr.
                 float_values res ! i = float_values arr ! i \<or>
                 float_values res ! i = real_of_int (trunc
                   (median (float_values arr) + times_std * std (float_values arr))) \<or>
                 float_values res ! i = real_of_int (trunc
                   (median (float_values arr) - times_std * std (float_values arr)))))"
proof -
  define m where "m = median (float_values arr)"
  define s where "s = std (float_values arr)"
  define d1 where "d1 = setitem_mask (map (\<lambda>x. x - m > times_std * s) (float_values arr))
                      (m + times_std * s) arr"
  define d2 where "d2 = setitem_mask
      (map (\<lambda>x. x - m < 0 \<and> \<bar>x - m\<bar> > times_std * s) (float_values d1)) (m - times_std * s) d1"
  define h' where "h' = h\<lparr>cells := (cells h)(fresh h \<mapsto> d2), fresh := Suc (fresh h)\<rparr>"
  have run: "threshold_outliers data times_std h = Some (fresh h, h')"
    using threshold_outliers_eq[OF assms(2), of times_std]
    by (simp add: h'_def d2_def d1_def m_def s_def Let_def)
  have "data \<in> dom (cells h)" using assms(2) by auto
  then have lt: "data < fresh h" using assms(1) by (simp add: wf_store_def)
  have new: "cells h (fresh h) = None"
  proof (rule ccontr)
    assume "cells h (fresh h) \<noteq> None"
    then have "fresh h \<in> dom (cells h)" by auto
    then have "fresh h < fresh h" using assms(1) unfolding wf_store_def by blast
    then show False by simp
  qed
  have s1: "size_of d1 = size_of arr"
    by (simp add: d1_def size_of_setitem_mask length_float_values)
  have s2: "size_of d2 = size_of arr"
    by (simp add: d2_def size_of_setitem_mask length_float_values s1)
  have t2: "is_int_array d2 = is_int_array arr"
    by (simp add: d2_def d1_def is_int_array_setitem_mask)
  have vals: "float_values d2 ! i = float_values arr ! i \<or>
        float_values d2 ! i = real_of_int (trunc (m + times_std * s)) \<or>
        float_values d2 ! i = real_of_int (trunc (m - times_std * s))"
    if "is_int_array arr" and "i < size_of arr" for i
  proof -
    have a: "float_values d1 ! i = float_values arr ! i \<or>
             float_values d1 ! i = real_of_int (trunc (m + times_std * s))"
      unfolding d1_def using that by (simp add: float_values_setitem_mask)
    have i1: "is_int_array d1" using that(1) by (simp add: d1_def is_int_array_setitem_mask)
    have b: "float_values d2 ! i = float_values d1 ! i \<or>
             float_values d2 ! i = real_of_int (trunc (m - times_std * s))"
      unfolding d2_def using that(2) s1 i1 by (simp add: float_values_setitem_mask)
    from a b show ?thesis by auto
  qed
  have frame: "\<forall>a. a \<noteq> fresh h \<longrightarrow> cells h' a = cells h a" by (simp add: h'_def)
  have old: "cells h' data = Some arr" using lt assms(2) by (simp add: h'_def)
  have res: "cells h' (fresh h) = Some d2" by (simp add: h'_def)
  show ?thesis
    using run lt new old frame res s2 t2 vals unfolding m_def s_def
    by (intro exI[of _ "fresh h"] exI[of _ h'] exI[of _ d2]) auto
qed



theorem threshold_outliers_no_mutation_witness:
  "\<exists>r h' res. threshold_outliers 0 1
        \<lparr>cells = [0 \<mapsto> IntArray [10, 9, 11, 40, 8, 12, 14, 7]], fresh = 1\<rparr> = Some (r, h') \<and>
      r \<noteq> 0 \<and> cells h' 0 = Some (IntArray [10, 9, 11, 40, 8, 12, 14, 7]) \<and>
      cells h' r = Some res \<and> size_of res = 8 \<and> is_int_array res"
proof -
  let ?h = "\<lparr>cells = [0 \<mapsto> IntArray [10, 9, 11, 40, 8, 12, 14, 7]], fresh = 1\<rparr>"
  have w: "wf_store ?h" by (simp add: wf_store_def)
  have a: "cells ?h 0 = Some (IntArray [10, 9, 11, 40, 8, 12, 14, 7])" by simp
  from threshold_outliers_no_mutation[OF w a, of 1] show ?thesis
    by (elim exE conjE, intro exI conjI) simp_all
qed

subsection \<open>\<^verbatim>\<open>find_extrema_and_prominence\<close>\<close>

lemma relative_maxima_doctest:
  "relative_maxima [1, 2, 3, 2, 1, 0, 1, 2, 15, 2, -15, 2, 1] 2 = Inr [2, 8]"
  by (simp add: relative_maxima_def argrelextrema_def boolrelextrema_def take_clip_def
      upto.simps upt_rec)

lemma relative_minima_doctest:
  "relative_minima [1, 2, 3, 2, 1, 0, 1, 2, 15, 2, -15, 2, 1] 2 = Inr [5, 10]"
  by (simp add: relative_minima_def argrelextrema_def boolrelextrema_def take_clip_def
      upto.simps upt_rec)

lemma argbest_bound: "b < i \<Longrightarrow> argbest better b bv i xs < i + length xs"
proof (induction xs arbitrary: b bv i)
  case Nil
  then show ?case by simp
next
  case (Cons x xs)
  have 1: "argbest better i x (Suc i) xs < Suc i + length xs" by (rule Cons.IH) simp
  have 2: "argbest better b bv (Suc i) xs < Suc i + length xs"
    by (rule Cons.IH) (use Cons.prems in simp)
  show ?case using 1 2 by simp
qed

lemma argmax_in_range: "sig \<noteq> [] \<Longrightarrow> \<exists>j. argmax sig = Inr j \<and> j < length sig"
  using argbest_bound[of 0 1] by (cases sig) (auto simp: less_Suc_eq_le)

lemma argmin_in_range: "sig \<noteq> [] \<Longrightarrow> \<exists>j. argmin sig = Inr j \<and> j < length sig"
  using argbest_bound[of 0 1] by (cases sig) (auto simp: less_Suc_eq_le)

lemma argrelextrema_Inr:
  "0 < ord \<Longrightarrow> \<exists>found. argrelextrema sig cmp ord = Inr found \<and> sorted_wrt (<) found \<and>
     (\<forall>i\<in>set found. i < length sig)"
  by (auto simp: argrelextrema_def boolrelextrema_def sorted_wrt_filter)

lemma extrema_retry_maxima:
  "extrema_retry relative_maxima sig ord cur =
     (if 0 < ord then relative_maxima sig ord else Inr cur)"
  using argrelextrema_Inr[of ord sig "\<lambda>a b. a > b"]
  by (auto simp: relative_maxima_def)

lemma extrema_retry_minima:
  "extrema_retry relative_minima sig ord cur =
     (if 0 < ord then relative_minima sig ord else Inr cur)"
  using argrelextrema_Inr[of ord sig "\<lambda>a b. a < b"]
  by (auto simp: relative_minima_def)

lemma intpy_Inr: "extrema \<noteq> [] \<Longrightarrow> \<exists>py. intpy extrema sig = Inr py \<and> length py = length extrema + 2"
  by (simp add: intpy_def Let_def)


lemma envelope_spline:
  "2 \<le> length py \<Longrightarrow>
   envelope spline v px py n = spline px py (0, real n) (if length py \<le> 3 then int (length py) - 1 else 3)"
  by (auto simp: envelope_def Let_def)

lemma find_extrema_and_prominence_unfold:
  assumes "argmax sig = Inr i_max" and "argmin sig = Inr i_min"
    and "extrema_retry relative_maxima sig ord [i_max] = Inr mx0"
    and "extrema_retry relative_minima sig ord [i_min] = Inr mn0"
    and "mx = (if mx0 = [] then [i_max] else mx0)"
    and "mn = (if mn0 = [] then [i_min] else mn0)"
  shows "\<exists>py_max py_min. intpy mx sig = Inr py_max \<and> intpy mn sig = Inr py_min \<and>
     length py_max = length mx + 2 \<and> length py_min = length mn + 2 \<and>
     find_extrema_and_prominence spline sig ord =
       Inr \<lparr>maxima = mx, minima = mn, signal = sig, order = ord,
            max_spline = envelope spline PInf (intpx mx sig) py_max (length sig),
            min_spline = envelope spline NInf (intpx mn sig) py_min (length sig),
            xpts = map real [0..<length sig],
            max_spline_points =
              map (envelope spline PInf (intpx mx sig) py_max (length sig)) (map real [0..<length sig]),
            min_spline_points =
              map (envelope spline NInf (intpx mn sig) py_min (length sig)) (map real [0..<length sig]),
            prominence = map2 fsub
              (map (envelope spline PInf (intpx mx sig) py_max (length sig)) (map real [0..<length sig]))
              (map (envelope spline NInf (intpx mn sig) py_min (length sig)) (map real [0..<length sig]))\<rparr>"
proof -
  have "mx \<noteq> []" "mn \<noteq> []" using assms(5,6) by auto
  then obtain py_max py_min where py: "intpy mx sig = Inr py_max" "length py_max = length mx + 2"
      "intpy mn sig = Inr py_min" "length py_min = length mn + 2"
    using intpy_Inr by metis
  have mx': "(if length mx0 = 0 then [i_max] else mx0) = mx" using assms(5) by simp
  have mn': "(if length mn0 = 0 then [i_min] else mn0) = mn" using assms(6) by simp
  have "find_extrema_and_prominence spline sig ord =
       Inr \<lparr>maxima = mx, minima = mn, signal = sig, order = ord,
            max_spline = envelope spline PInf (intpx mx sig) py_max (length sig),
            min_spline = envelope spline NInf (intpx mn sig) py_min (length sig),
            xpts = map real [0..<length sig],
            max_spline_points =
              map (envelope spline PInf (intpx mx sig) py_max (length sig)) (map real [0..<length sig]),
            min_spline_points =
              map (envelope spline NInf (intpx mn sig) py_min (length sig)) (map real [0..<length sig]),
            prominence = map2 fsub
              (map (envelope spline PInf (intpx mx sig) py_max (length sig)) (map real [0..<length sig]))
              (map (envelope spline NInf (intpx mn sig) py_min (length sig)) (map real [0..<length sig]))\<rparr>"
    unfolding find_extrema_and_prominence_def
    by (simp only: assms(1-4) sum.case Let_def mx' mn' py)
  then show ?thesis using py by blast
qed


lemma extrema_retry_cases:
  assumes "sig \<noteq> []"
  shows "\<exists>i_max mx0. argmax sig = Inr i_max \<and> i_max < length sig \<and>
           extrema_retry relative_maxima sig ord [i_max] = Inr mx0 \<and>
           sorted_wrt (<) mx0 \<and> (\<forall>i\<in>set mx0. i < length sig) \<and>
           (if 0 < ord then relative_maxima sig ord = Inr mx0 else mx0 = [i_max])"
    and "\<exists>i_min mn0. argmin sig = Inr i_min \<and> i_min < length sig \<and>
           extrema_retry relative_minima sig ord [i_min] = Inr mn0 \<and>
           sorted_wrt (<) mn0 \<and> (\<forall>i\<in>set mn0. i < length sig) \<and>
           (if 0 < ord then relative_minima sig ord = Inr mn0 else mn0 = [i_min])"
proof -
  obtain i_max where a: "argmax sig = Inr i_max" "i_max < length sig"
    using argmax_in_range[OF assms] by blast
  obtain i_min where b: "argmin sig = Inr i_min" "i_min < length sig"
    using argmin_in_range[OF assms] by blast
  show "\<exists>i_max mx0. argmax sig = Inr i_max \<and> i_max < length sig \<and>
           extrema_retry relative_maxima sig ord [i_max] = Inr mx0 \<and>
           sorted_wrt (<) mx0 \<and> (\<forall>i\<in>set mx0. i < length sig) \<and>
           (if 0 < ord then relative_maxima sig ord = Inr mx0 else mx0 = [i_max])"
  proof (cases "0 < ord")
    case True
    then obtain found where "relative_maxima sig ord = Inr found" "sorted_wrt (<) found"
        "\<forall>i\<in>set found. i < length sig"
      using argrelextrema_Inr[of ord sig "\<lambda>a b. a > b"] unfolding relative_maxima_def by blast
    then show ?thesis using a True by (simp only: extrema_retry_maxima) auto
  next
    case False
    then show ?thesis using a by (simp only: extrema_retry_maxima) auto
  qed
  show "\<exists>i_min mn0. argmin sig = Inr i_min \<and> i_min < length sig \<and>
           extrema_retry relative_minima sig ord [i_min] = Inr mn0 \<and>
           sorted_wrt (<) mn0 \<and> (\<forall>i\<in>set mn0. i < length sig) \<and>
           (if 0 < ord then relative_minima sig ord = Inr mn0 else mn0 = [i_min])"
  proof (cases "0 < ord")
    case True
    then obtain found where "relative_minima sig ord = Inr found" "sorted_wrt (<) found"
        "\<forall>i\<in>set found. i < length sig"
      using argrelextrema_Inr[of ord sig "\<lambda>a b. a < b"] unfolding relative_minima_def by blast
    then show ?thesis using b True by (simp only: extrema_retry_minima) auto
  next
    case False
    then show ?thesis using b by (simp only: extrema_retry_minima) auto
  qed
qed

lemma sorted_wrt_less_distinct: "sorted_wrt (<) (xs :: nat list) \<Longrightarrow> distinct xs"
  by (simp add: strict_sorted_iff)


lemma find_extrema_and_prominence_maxima:
  assumes "sig \<noteq> []"
  shows "\<exists>r. find_extrema_and_prominence spline sig ord = Inr r \<and>
           sorted_wrt (<) (maxima r) \<and> (\<forall>i\<in>set (maxima r). i < length sig)"
proof -
  obtain i_max mx0 where a: "argmax sig = Inr i_max" "i_max < length sig"
      "extrema_retry relative_maxima sig ord [i_max] = Inr mx0"
      "sorted_wrt (<) mx0" "\<forall>i\<in>set mx0. i < length sig"
    using extrema_retry_cases(1)[OF assms, of ord] by blast
  obtain i_min mn0 where b: "argmin sig = Inr i_min"
      "extrema_retry relative_minima sig ord [i_min] = Inr mn0"
    using extrema_retry_cases(2)[OF assms, of ord] by blast
  obtain r where r: "find_extrema_and_prominence spline sig ord = Inr r"
      "maxima r = (if mx0 = [] then [i_max] else mx0)"
    using find_extrema_and_prominence_unfold[OF a(1) b(1) a(3) b(2) refl refl, of spline]
    by auto
  have "sorted_wrt (<) (maxima r)" "\<forall>i\<in>set (maxima r). i < length sig"
    using a(2,4,5) by (auto simp: r(2))
  then show ?thesis using r(1) by blast
qed

text \<open>
  C1: for every non-empty signal of length \<open>N\<close> and every order,
  \<^verbatim>\<open>find_extrema_and_prominence\<close> returns a result whose \<^verbatim>\<open>max_spline_points\<close>,
  \<^verbatim>\<open>min_spline_points\<close> and \<^verbatim>\<open>prominence\<close> have length \<open>N\<close>, with
  \<open>prominence[i] = max_spline_points[i] - min_spline_points[i]\<close> at every position, and
  whose \<^verbatim>\<open>maxima\<close> and \<^verbatim>\<open>minima\<close> are strictly ascending, free of duplicates and
  within \<open>[0, N - 1]\<close>. This holds for whatever function the spline library returns.
\<close>

theorem find_extrema_and_prominence_shape:
  assumes "sig \<noteq> []"
  shows "\<exists>r. find_extrema_and_prominence spline sig ord = Inr r \<and>
           length (max_spline_points r) = length sig \<and>
           length (min_spline_points r) = length sig \<and>
           length (prominence r) = length sig \<and>
           (\<forall>i<length sig.
              prominence r ! i = fsub (max_spline_points r ! i) (min_spline_points r ! i)) \<and>
           sorted_wrt (<) (maxima r) \<and> distinct (maxima r) \<and>
           (\<forall>i\<in>set (maxima r). i < length sig) \<and>
           sorted_wrt (<) (minima r) \<and> distinct (minima r) \<and>
           (\<forall>i\<in>set (minima r). i < length sig)"
proof -
  obtain i_max mx0 where a: "argmax sig = Inr i_max" "i_max < length sig"
      "extrema_retry relative_maxima sig ord [i_max] = Inr mx0"
      "sorted_wrt (<) mx0" "\<forall>i\<in>set mx0. i < length sig"
    using extrema_retry_cases(1)[OF assms, of ord] by blast
  obtain i_min mn0 where b: "argmin sig = Inr i_min" "i_min < length sig"
      "extrema_retry relative_minima sig ord [i_min] = Inr mn0"
      "sorted_wrt (<) mn0" "\<forall>i\<in>set mn0. i < length sig"
    using extrema_retry_cases(2)[OF assms, of ord] by blast
  define mx where "mx = (if mx0 = [] then [i_max] else mx0)"
  define mn where "mn = (if mn0 = [] then [i_min] else mn0)"
  have mx: "sorted_wrt (<) mx" "\<forall>i\<in>set mx. i < length sig"
    using a(2,4,5) by (auto simp: mx_def)
  have mn: "sorted_wrt (<) mn" "\<forall>i\<in>set mn. i < length sig"
    using b(2,4,5) by (auto simp: mn_def)
  obtain r where r: "find_extrema_and_prominence spline sig ord = Inr r"
      "maxima r = mx" "minima r = mn"
      "max_spline_points r = map (max_spline r) (map real [0..<length sig])"
      "min_spline_points r = map (min_spline r) (map real [0..<length sig])"
      "prominence r = map2 fsub (max_spline_points r) (min_spline_points r)"
    using find_extrema_and_prominence_unfold[OF a(1) b(1) a(3) b(3) mx_def mn_def, of spline]
    by auto
  have len: "length (max_spline_points r) = length sig" "length (min_spline_points r) = length sig"
    by (simp_all add: r(4,5))
  have "prominence r ! i = fsub (max_spline_points r ! i) (min_spline_points r ! i)"
    if "i < length sig" for i
    using that len by (simp add: r(6))
  moreover have "length (prominence r) = length sig" using len by (simp add: r(6))
  ultimately show ?thesis
    using r(1,2,3) len mx mn sorted_wrt_less_distinct[OF mx(1)] sorted_wrt_less_distinct[OF mn(1)]
    by (intro exI[of _ r]) simp
qed


theorem find_extrema_and_prominence_shape_witness:
  "\<exists>r. find_extrema_and_prominence (\<lambda>px py bbox k x. Fin 0) [1, 3, 2] 1 = Inr r \<and>
       length (max_spline_points r) = 3 \<and> length (min_spline_points r) = 3 \<and>
       length (prominence r) = 3 \<and> sorted_wrt (<) (maxima r) \<and> sorted_wrt (<) (minima r)"
  using find_extrema_and_prominence_shape[of "[1, 3, 2]" "\<lambda>px py bbox k x. Fin 0" 1]
  by auto



lemma doctest_argmax: "argmax [1, 2, 3, 2, 1, 0, 1, 2, 15, 2, -15, 2, 1] = Inr 8"
  by simp

lemma doctest_argmin: "argmin [1, 2, 3, 2, 1, 0, 1, 2, 15, 2, -15, 2, 1] = Inr 10"
  by simp

lemma doctest_max_envelope:
  "lagrange [0, 2, 8, 12] [3, 3, 15, 15] 1 = 199 / 80"
  "lagrange [0, 2, 8, 12] [3, 3, 15, 15] 2 = 3"
  "lagrange [0, 2, 8, 12] [3, 3, 15, 15] 3 = 69 / 16"
  by (simp_all add: lagrange_def upt_rec)

lemma doctest_min_envelope:
  "lagrange [0, 5, 10, 12] [0, 0, -15, -15] 1 = 237 / 70"
  "lagrange [0, 5, 10, 12] [0, 0, -15, -15] 2 = 33 / 7"
  "lagrange [0, 5, 10, 12] [0, 0, -15, -15] 3 = 87 / 20"
  by (simp_all add: lagrange_def upt_rec)


text \<open>
  C8: the prominence returned by \<^verbatim>\<open>find_extrema_and_prominence\<close> can be negative. For
  the signal of the doctest with order 2 the maxima are \<open>[2, 8]\<close>, the minima \<open>[5, 10]\<close>,
  each envelope is the cubic through its four control points, and the envelopes cross:
  the prominence is \<open>-503/560\<close>, \<open>-12/7\<close> and \<open>-3/80\<close> at positions 1, 2 and 3 (the
  doctest prints -0.89821429, -1.71428571, -0.0375). Position 2 is one of the maxima.
\<close>

theorem prominence_negative_doctest:
  "\<exists>r. find_extrema_and_prominence interpolating_spline
          [1, 2, 3, 2, 1, 0, 1, 2, 15, 2, -15, 2, 1] 2 = Inr r \<and>
       maxima r = [2, 8] \<and> minima r = [5, 10] \<and>
       max_spline_points r ! 1 = Fin (199 / 80) \<and> min_spline_points r ! 1 = Fin (237 / 70) \<and>
       prominence r ! 1 = Fin (- 503 / 560) \<and>
       prominence r ! 2 = Fin (- 12 / 7) \<and>
       prominence r ! 3 = Fin (- 3 / 80) \<and>
       fless (prominence r ! 1) (Fin 0) \<and> fless (prominence r ! 2) (Fin 0) \<and>
       fless (prominence r ! 3) (Fin 0)"
proof -
  let ?sig = "[1, 2, 3, 2, 1, 0, 1, 2, 15, 2, -15, 2, 1] :: real list"
  have mx: "extrema_retry relative_maxima ?sig 2 [8] = Inr [2, 8]"
    by (simp only: extrema_retry_maxima relative_maxima_doctest) simp
  have mn: "extrema_retry relative_minima ?sig 2 [10] = Inr [5, 10]"
    by (simp only: extrema_retry_minima relative_minima_doctest) simp
  have e1: "[2, 8] = (if [2, 8] = [] then [8] else [2, 8::nat])" by simp
  have e2: "[5, 10] = (if [5, 10] = [] then [10] else [5, 10::nat])" by simp
  obtain py_max py_min r where py: "intpy [2, 8] ?sig = Inr py_max" "intpy [5, 10] ?sig = Inr py_min"
    and r: "find_extrema_and_prominence interpolating_spline ?sig 2 = Inr r"
      "maxima r = [2, 8]" "minima r = [5, 10]"
      "max_spline r = envelope interpolating_spline PInf (intpx [2, 8] ?sig) py_max (length ?sig)"
      "min_spline r = envelope interpolating_spline NInf (intpx [5, 10] ?sig) py_min (length ?sig)"
      "max_spline_points r = map (max_spline r) (map real [0..<length ?sig])"
      "min_spline_points r = map (min_spline r) (map real [0..<length ?sig])"
      "prominence r = map2 fsub (max_spline_points r) (min_spline_points r)"
    using find_extrema_and_prominence_unfold[OF doctest_argmax doctest_argmin mx mn e1 e2,
        of interpolating_spline]
    by auto
  have pmax: "py_max = [3, 3, 15, 15]" using py(1) by (simp add: intpy_def)
  have pmin: "py_min = [0, 0, -15, -15]" using py(2) by (simp add: intpy_def)
  have fmax: "max_spline r = (\<lambda>x. Fin (lagrange [0, 2, 8, 12] [3, 3, 15, 15] x))"
    by (simp add: r(4) pmax envelope_def intpx_def interpolating_spline_def fun_eq_iff)
  have fmin: "min_spline r = (\<lambda>x. Fin (lagrange [0, 5, 10, 12] [0, 0, -15, -15] x))"
    by (simp add: r(5) pmin envelope_def intpx_def interpolating_spline_def fun_eq_iff)
  have len: "length (max_spline_points r) = 13" "length (min_spline_points r) = 13"
    by (simp_all add: r(6,7))
  have vmax: "max_spline_points r ! 1 = Fin (199 / 80)" "max_spline_points r ! 2 = Fin 3"
    "max_spline_points r ! 3 = Fin (69 / 16)"
    by (simp_all add: r(6) fmax doctest_max_envelope nth_map)
  have vmin: "min_spline_points r ! 1 = Fin (237 / 70)" "min_spline_points r ! 2 = Fin (33 / 7)"
    "min_spline_points r ! 3 = Fin (87 / 20)"
    by (simp_all add: r(7) fmin doctest_min_envelope nth_map)
  have p: "prominence r ! 1 = Fin (- 503 / 560)" "prominence r ! 2 = Fin (- 12 / 7)"
    "prominence r ! 3 = Fin (- 3 / 80)"
  proof -
    have "prominence r ! i = fsub (max_spline_points r ! i) (min_spline_points r ! i)"
      if "i < 13" for i
      using that len by (simp add: r(8))
    from this[of 1] this[of 2] this[of 3]
    show "prominence r ! 1 = Fin (- 503 / 560)" "prominence r ! 2 = Fin (- 12 / 7)"
      "prominence r ! 3 = Fin (- 3 / 80)"
      unfolding vmax vmin by (simp_all add: fsub_def)
  qed
  show ?thesis using r(1,2,3) vmax(1) vmin(1) p by (intro exI[of _ r]) simp
qed


subsection \<open>\<^verbatim>\<open>find_cells_in_channel\<close>\<close>

lemma is_a_cell_accepted: "is_a_cell cfg pbin prom last_pos pos = accepted cfg pbin prom last_pos pos"
  by (auto simp: is_a_cell_def accepted_def)

lemma cells_zip_emitted:
  "map (\<lambda>(last_pos, pos). (last_pos + 1, pos - 1))
     (filter (\<lambda>(last_pos, pos). is_a_cell cfg pbin prom last_pos pos) (zip (l # ps) ps))
   = emitted cfg pbin prom l ps"
  by (induction ps arbitrary: l) (simp_all add: is_a_cell_accepted)

lemma cells_between_emitted: "cells_between cfg pbin prom ps = emitted cfg pbin prom 0 ps"
  unfolding cells_between_def using cells_zip_emitted[of cfg pbin prom 0 ps] by simp

lemma positions_candidates:
  "positions r n = candidate_points (maxima r) (prominence r) n"
  by (simp add: positions_def candidate_points_def)

lemma candidate_points_sorted:
  assumes "sorted_wrt (<) mx" and "\<forall>i\<in>set mx. i < n"
  shows "sorted_wrt (<) (candidate_points mx prom n)"
  using assms by (auto simp: candidate_points_def sorted_wrt_append sorted_wrt_filter)

lemma emitted_ascending:
  assumes "sorted_wrt (<) ps" and "\<forall>p\<in>set ps. l \<le> p"
  shows "sorted_wrt (\<lambda>c d. snd c < fst d) (emitted cfg pbin prom l ps) \<and>
         (\<forall>c\<in>set (emitted cfg pbin prom l ps). l < fst c \<and> fst c < snd c)"
  using assms
proof (induction ps arbitrary: l)
  case Nil
  then show ?case by simp
next
  case (Cons p ps)
  have s: "sorted_wrt (<) ps" and le: "\<forall>q\<in>set ps. p \<le> q" using Cons.prems(1) by auto
  note ih = Cons.IH[OF s le]
  show ?case
  proof (cases "accepted cfg pbin prom l p")
    case True
    then have lp: "l + 2 < p" by (simp add: accepted_def)
    have "\<forall>c\<in>set (emitted cfg pbin prom p ps). p - 1 < fst c \<and> l < fst c"
      using ih lp by auto
    then show ?thesis using True ih lp by auto
  next
    case False
    have "l \<le> p" using Cons.prems(2) by simp
    then have "\<forall>c\<in>set (emitted cfg pbin prom p ps). l < fst c" using ih by auto
    then show ?thesis using False ih by auto
  qed
qed

lemma size_of_threshold_outliers_result:
  "size_of (threshold_outliers_result arr t) = size_of arr"
  by (simp add: threshold_outliers_result_def Let_def size_of_setitem_mask length_float_values)

lemma empty_channel_not_skipping:
  assumes "img \<noteq> []" and "\<not> empty_channel_skipping cfg"
  shows "empty_channel cfg img = Inr False"
proof -
  have "length (float_values (threshold_outliers_result (FloatArray (vertical_mean img))
      (outlier_times_sigma cfg))) = length img"
    by (simp add: length_float_values size_of_threshold_outliers_result vertical_mean_def)
  then have "float_values (threshold_outliers_result (FloatArray (vertical_mean img))
      (outlier_times_sigma cfg)) \<noteq> []" using assms(1) by auto
  then show ?thesis using assms(2) by (simp add: empty_channel_def Let_def)
qed

lemma set_emitted:
  "set (emitted cfg pbin prom l ps) =
     {(a + 1, p - 1) | i a p. i < length ps \<and> a = (l # ps) ! i \<and> p = ps ! i \<and>
        accepted cfg pbin prom a p}"
proof (induction ps arbitrary: l)
  case Nil
  then show ?case by simp
next
  case (Cons q ps)
  have split: "{(a + 1, p - 1) | i a p. i < length (q # ps) \<and> a = (l # q # ps) ! i \<and>
        p = (q # ps) ! i \<and> accepted cfg pbin prom a p}
      = (if accepted cfg pbin prom l q then {(l + 1, q - 1)} else {}) \<union>
        {(a + 1, p - 1) | i a p. i < length ps \<and> a = (q # ps) ! i \<and> p = ps ! i \<and>
          accepted cfg pbin prom a p}" (is "?L = ?R")
  proof (intro set_eqI iffI)
    fix c assume "c \<in> ?L"
    then obtain i where i: "i < length (q # ps)" "c = ((l # q # ps) ! i + 1, (q # ps) ! i - 1)"
        "accepted cfg pbin prom ((l # q # ps) ! i) ((q # ps) ! i)" by auto
    show "c \<in> ?R"
    proof (cases i)
      case 0
      then show ?thesis using i by auto
    next
      case (Suc j)
      then have "j < length ps" "c = ((q # ps) ! j + 1, ps ! j - 1)"
        "accepted cfg pbin prom ((q # ps) ! j) (ps ! j)" using i by auto
      then show ?thesis by blast
    qed
  next
    fix c assume c: "c \<in> ?R"
    show "c \<in> ?L"
    proof (cases "c = (l + 1, q - 1) \<and> accepted cfg pbin prom l q")
      case True
      then have "0 < length (q # ps) \<and> c = ((l # q # ps) ! 0 + 1, (q # ps) ! 0 - 1) \<and>
          accepted cfg pbin prom ((l # q # ps) ! 0) ((q # ps) ! 0)" by simp
      then show ?thesis by blast
    next
      case False
      then obtain j where "j < length ps" "c = ((q # ps) ! j + 1, ps ! j - 1)"
        "accepted cfg pbin prom ((q # ps) ! j) (ps ! j)" using c by (auto split: if_splits)
      then have "Suc j < length (q # ps) \<and> c = ((l # q # ps) ! Suc j + 1, (q # ps) ! Suc j - 1) \<and>
          accepted cfg pbin prom ((l # q # ps) ! Suc j) ((q # ps) ! Suc j)" by simp
      then show ?thesis by blast
    qed
  qed
  show ?case unfolding split using Cons.IH[of q] by auto
qed

lemma find_cells_in_channel_empty_channel:
  "empty_channel cfg img = Inr True \<Longrightarrow> find_cells_in_channel prims cfg img = Inr []"
  by (simp add: find_cells_in_channel_def)

text \<open>
  C2: \<^verbatim>\<open>find_cells_in_channel\<close>, when the empty-channel short-circuit does not fire,
  emits exactly the segments bounded by consecutive candidate split points. The
  candidates are the detected maxima of strictly positive prominence followed by the
  length of the profile, with an implicit leading 0. The segment \<open>(last_pos, pos)\<close> is
  accepted iff \<open>pos - last_pos > 2\<close>, the mean of the binarized profile over
  \<open>[last_pos, pos)\<close> is below \<^verbatim>\<open>maximum_brightness\<close> and the mean prominence over it is
  above \<^verbatim>\<open>minimum_prominence\<close>. Each accepted segment is emitted as
  \<open>(last_pos + 1, pos - 1)\<close>, and the emitted segments are in ascending order (each ends
  before the next begins).
\<close>

theorem find_cells_in_channel_segments:
  assumes "empty_channel cfg img = Inr False"
    and "processed_profile prims cfg img \<noteq> []"
  shows "\<exists>r ps found.
           find_extrema_and_prominence (univariate_spline prims)
               (processed_profile prims cfg img) (extrema_order cfg) = Inr r \<and>
           ps = candidate_points (maxima r) (prominence r)
                  (length (processed_profile prims cfg img)) \<and>
           find_cells_in_channel prims cfg img = Inr found \<and>
           found = emitted cfg (profile_of_binary_image prims cfg img) (prominence r) 0 ps \<and>
           set found =
             {(a + 1, p - 1) | i a p. i < length ps \<and> a = (0 # ps) ! i \<and> p = ps ! i \<and>
                accepted cfg (profile_of_binary_image prims cfg img) (prominence r) a p} \<and>
           sorted_wrt (<) ps \<and>
           sorted_wrt (\<lambda>c d. snd c < fst d) found \<and>
           (\<forall>c\<in>set found. fst c < snd c)"
proof -
  let ?profile = "processed_profile prims cfg img"
  let ?pbin = "profile_of_binary_image prims cfg img"
  obtain r where r: "find_extrema_and_prominence (univariate_spline prims) ?profile
        (extrema_order cfg) = Inr r"
      "sorted_wrt (<) (maxima r)" "\<forall>i\<in>set (maxima r). i < length ?profile"
    using find_extrema_and_prominence_maxima[OF assms(2), of "univariate_spline prims" "extrema_order cfg"]
    by blast
  define ps where "ps = candidate_points (maxima r) (prominence r) (length ?profile)"
  define found where "found = emitted cfg ?pbin (prominence r) 0 ps"
  have run: "find_cells_in_channel prims cfg img = Inr found"
    by (simp add: find_cells_in_channel_def assms(1) r(1) Let_def cells_between_emitted
        positions_candidates found_def ps_def)
  have s: "sorted_wrt (<) ps" unfolding ps_def using r(2,3) by (rule candidate_points_sorted)
  have "\<forall>p\<in>set ps. 0 \<le> p" by simp
  from emitted_ascending[OF s this, of cfg ?pbin "prominence r"]
  have asc: "sorted_wrt (\<lambda>c d. snd c < fst d) found" "\<forall>c\<in>set found. fst c < snd c"
    by (simp_all add: found_def)
  have mem: "set found =
      {(a + 1, p - 1) | i a p. i < length ps \<and> a = (0 # ps) ! i \<and> p = ps ! i \<and>
         accepted cfg ?pbin (prominence r) a p}"
    unfolding found_def by (rule set_emitted)
  show ?thesis
    using r(1) ps_def run found_def mem s asc
    by (intro exI[of _ r] exI[of _ ps] exI[of _ found]) blast
qed

lemma round8_int:
  assumes "\<bar>n * 10 ^ 8\<bar> \<le> 2 ^ 53"
  shows "round8 (real_of_int n) = real_of_int n"
proof -
  have n: "\<bar>n\<bar> \<le> 2 ^ 53" using assms by (simp add: abs_mult)
  have p: "real_of_int n * 10 ^ 8 = real_of_int (n * 10 ^ 8)" by simp
  have 1: "round_to_double (real_of_int n * 10 ^ 8) = real_of_int (n * 10 ^ 8)"
    unfolding p using assms by (rule round_to_double_int)
  have 2: "real_of_int (n * 10 ^ 8) / 10 ^ 8 = real_of_int n" by simp
  show ?thesis
    unfolding round8_def 1 rhe_of_int 2 using n by (rule round_to_double_int)
qed

lemma example_processed_profile: "processed_profile example_primitives example_tunables example_image = [0, 100, 0, 0, 0, 0, 100]"
  using round8_int[of 0] round8_int[of 100]
  by (simp add: processed_profile_def example_primitives_def example_tunables_def example_image_def vertical_mean_def mean_def
      simple_baseline_correction_def default_tunables_def)

lemma example_binary_profile: "profile_of_binary_image example_primitives example_tunables example_image = [0, 1, 0, 0, 0, 0, 1]"
  by (simp add: profile_of_binary_image_def example_primitives_def example_tunables_def example_image_def vertical_mean_def mean_def
      default_tunables_def)


lemma example_maxima: "relative_maxima [0, 100, 0, 0, 0, 0, 100] 1 = Inr [1]"
  by (simp add: relative_maxima_def argrelextrema_def boolrelextrema_def take_clip_def
      upto.simps upt_rec)

lemma example_minima: "relative_minima [0, 100, 0, 0, 0, 0, 100] 1 = Inr []"
  by (simp add: relative_minima_def argrelextrema_def boolrelextrema_def take_clip_def
      upto.simps upt_rec)

lemma example_extrema:
  "\<exists>r. find_extrema_and_prominence (univariate_spline example_primitives) [0, 100, 0, 0, 0, 0, 100] 1 = Inr r \<and>
     maxima r = [1] \<and> prominence r = [Fin 100, Fin 100, Fin 100, Fin 100, Fin 100, Fin 100, Fin 100]"
proof -
  let ?sig = "[0, 100, 0, 0, 0, 0, 100] :: real list"
  have a: "argmax ?sig = Inr 1" and b: "argmin ?sig = Inr 0" by simp_all
  have mx: "extrema_retry relative_maxima ?sig 1 [1] = Inr [1]"
    by (simp only: extrema_retry_maxima example_maxima) simp
  have mn: "extrema_retry relative_minima ?sig 1 [0] = Inr []"
    by (simp only: extrema_retry_minima example_minima) simp
  have e1: "[1] = (if [1] = [] then [1] else [1::nat])" by simp
  have e2: "[0] = (if [] = [] then [0] else ([]::nat list))" by simp
  obtain py_max py_min r where py: "intpy [1] ?sig = Inr py_max" "intpy [0] ?sig = Inr py_min"
    and r: "find_extrema_and_prominence (univariate_spline example_primitives) ?sig 1 = Inr r"
      "maxima r = [1]"
      "max_spline r = envelope (univariate_spline example_primitives) PInf (intpx [1] ?sig) py_max (length ?sig)"
      "min_spline r = envelope (univariate_spline example_primitives) NInf (intpx [0] ?sig) py_min (length ?sig)"
      "max_spline_points r = map (max_spline r) (map real [0..<length ?sig])"
      "min_spline_points r = map (min_spline r) (map real [0..<length ?sig])"
      "prominence r = map2 fsub (max_spline_points r) (min_spline_points r)"
    using find_extrema_and_prominence_unfold[OF a b mx mn e1 e2, of "univariate_spline example_primitives"]
    by auto
  have pmax: "py_max = [100, 100, 100]" using py(1) by (simp add: intpy_def)
  have pmin: "py_min = [0, 0, 0]" using py(2) by (simp add: intpy_def)
  have fmax: "max_spline r = (\<lambda>x. Fin 100)"
    by (simp add: r(3) pmax envelope_def example_primitives_def fun_eq_iff)
  have fmin: "min_spline r = (\<lambda>x. Fin 0)"
    by (simp add: r(4) pmin envelope_def example_primitives_def fun_eq_iff)
  have "prominence r = [Fin 100, Fin 100, Fin 100, Fin 100, Fin 100, Fin 100, Fin 100]"
    by (simp add: r(5,6,7) fmax fmin fsub_def upt_rec)
  then show ?thesis using r(1,2) by blast
qed

theorem find_cells_in_channel_segments_witness:
  "find_cells_in_channel example_primitives example_tunables example_image = Inr [(2, 6)]"
proof -
  let ?P = example_primitives and ?C = example_tunables and ?I = example_image
  let ?prom = "[Fin 100, Fin 100, Fin 100, Fin 100, Fin 100, Fin 100, Fin 100]"
  have e: "empty_channel ?C ?I = Inr False"
    by (rule empty_channel_not_skipping)
      (simp_all add: example_tunables_def example_image_def default_tunables_def)
  have p: "processed_profile ?P ?C ?I \<noteq> []"
    by (simp add: example_processed_profile)
  obtain r where r:
      "find_extrema_and_prominence (univariate_spline ?P) (processed_profile ?P ?C ?I)
         (extrema_order ?C) = Inr r"
      "find_cells_in_channel ?P ?C ?I =
         Inr (emitted ?C (profile_of_binary_image ?P ?C ?I) (prominence r) 0
                (candidate_points (maxima r) (prominence r)
                   (length (processed_profile ?P ?C ?I))))"
    using find_cells_in_channel_segments[OF e p] by blast
  have o: "extrema_order ?C = 1" by (simp add: example_tunables_def)
  from r(1) example_extrema have m: "maxima r = [1]" "prominence r = ?prom"
    unfolding example_processed_profile o by auto
  have c: "candidate_points [1] ?prom 7 = [1, 7]"
    by (simp add: candidate_points_def)
  have a1: "\<not> accepted ?C [0, 1, 0, 0, 0, 0, 1] ?prom 0 1"
    by (simp add: accepted_def)
  have a2: "accepted ?C [0, 1, 0, 0, 0, 0, 1] ?prom 1 7"
    by (simp add: accepted_def slice_def amean_def example_tunables_def default_tunables_def)
  have len: "length (processed_profile ?P ?C ?I) = 7"
    by (simp add: example_processed_profile)
  show ?thesis unfolding r(2) len m example_binary_profile c using a1 a2 by simp
qed


subsection \<open>\<^verbatim>\<open>find_phase\<close>\<close>

lemma root_term:
  assumes "0 < N"
  shows "unity_root N ^ (k * p) * cnj (unity_root N) ^ (k * q)
           = cis (2 * pi * (real_of_int (int q - int p)) / real N) ^ k"
proof -
  have "unity_root N ^ (k * p) = cis (real (k * p) * (- (2 * pi / real N)))"
    unfolding unity_root_def by (rule DeMoivre)
  moreover have "cnj (unity_root N) ^ (k * q) = cis (real (k * q) * (2 * pi / real N))"
    unfolding unity_root_def cis_cnj by (simp add: DeMoivre)
  moreover have "cis (2 * pi * (real_of_int (int q - int p)) / real N) ^ k
      = cis (real k * (2 * pi * (real_of_int (int q - int p)) / real N))"
    by (rule DeMoivre)
  moreover have "real (k * p) * (- (2 * pi / real N)) + real (k * q) * (2 * pi / real N)
      = real k * (2 * pi * (real_of_int (int q - int p)) / real N)"
    by (simp add: algebra_simps diff_divide_distrib)
  ultimately show ?thesis by (simp only: cis_mult)
qed

lemma cis_one_multiple:
  assumes "0 < N" and "cis (2 * pi * real_of_int d / real N) = 1"
  shows "int N dvd d"
proof -
  have "cos (2 * pi * real_of_int d / real N) = 1"
    using assms(2) by (metis cis.simps(1) one_complex.simps(1))
  then obtain n :: int where n: "2 * pi * real_of_int d / real N = real_of_int n * 2 * pi"
    using cos_one_2pi_int by blast
  have "2 * pi * real_of_int d = 2 * pi * (real_of_int n * real N)"
    using n assms(1) by (simp add: field_simps)
  moreover have "2 * pi \<noteq> (0::real)" by simp
  ultimately have "real_of_int d = real_of_int n * real N"
    using mult_left_cancel[of "2 * pi" "real_of_int d" "real_of_int n * real N"] by blast
  then have "real_of_int d = real_of_int (n * int N)" by simp
  then have "d = n * int N" by linarith
  then show ?thesis by simp
qed

lemma cis_multiple_one:
  assumes "0 < N" and "int N dvd d"
  shows "cis (2 * pi * real_of_int d / real N) = 1"
proof -
  obtain n where "d = int N * n" using assms(2) by (auto simp: dvd_def)
  then have "2 * pi * real_of_int d / real N = 2 * pi * real_of_int n"
    using assms(1) by simp
  then show ?thesis by (simp add: cis_multiple_2pi)
qed

lemma root_orthogonal:
  assumes "0 < N"
  shows "(\<Sum>k<N. unity_root N ^ (k * p) * cnj (unity_root N) ^ (k * q))
           = (if p mod N = q mod N then of_nat N else 0)"
proof -
  define w where "w = cis (2 * pi * (real_of_int (int q - int p)) / real N)"
  have s: "(\<Sum>k<N. unity_root N ^ (k * p) * cnj (unity_root N) ^ (k * q)) = (\<Sum>k<N. w ^ k)"
    by (simp add: root_term[OF assms] w_def)
  have wN: "w ^ N = 1"
  proof -
    have "w ^ N = cis (real N * (2 * pi * (real_of_int (int q - int p)) / real N))"
      unfolding w_def by (rule DeMoivre)
    also have "real N * (2 * pi * (real_of_int (int q - int p)) / real N)
        = 2 * pi * real_of_int (int q - int p)" using assms by simp
    finally show ?thesis by (simp add: cis_multiple_2pi)
  qed
  have dvd: "int N dvd (int q - int p) \<longleftrightarrow> p mod N = q mod N"
  proof -
    have "int N dvd (int q - int p) \<longleftrightarrow> int q mod int N = int p mod int N"
      by (simp add: mod_eq_dvd_iff)
    also have "\<dots> \<longleftrightarrow> q mod N = p mod N"
      by (metis of_nat_mod of_nat_eq_iff)
    finally show ?thesis by auto
  qed
  show ?thesis
  proof (cases "p mod N = q mod N")
    case True
    then have "w = 1" unfolding w_def using cis_multiple_one[OF assms] dvd by blast
    then show ?thesis using True by (simp add: s)
  next
    case False
    then have "w \<noteq> 1" unfolding w_def using cis_one_multiple[OF assms] dvd by blast
    then have "(\<Sum>k<N. w ^ k) = (w ^ N - 1) / (w - 1)" by (rule geometric_sum)
    then show ?thesis using False wN by (simp add: s)
  qed
qed


lemma sum_list_upt_sum: "(\<Sum>n\<leftarrow>[0..<N]. f n) = (\<Sum>n<N. f n :: complex)"
  by (simp add: interv_sum_list_conv_sum_set_nat atLeast0LessThan)

lemma dft_nth:
  "k < length xs \<Longrightarrow> dft xs ! k = (\<Sum>n<length xs. xs ! n * unity_root (length xs) ^ (k * n))"
  by (simp add: dft_def sum_list_upt_sum)

lemma idft_nth:
  "n < length ys \<Longrightarrow>
   idft ys ! n = (\<Sum>k<length ys. ys ! k * cnj (unity_root (length ys)) ^ (k * n)) / of_nat (length ys)"
  by (simp add: idft_def sum_list_upt_sum)

lemma length_dft [simp]: "length (dft xs) = length xs"
  by (simp add: dft_def)

lemma length_idft [simp]: "length (idft xs) = length xs"
  by (simp add: idft_def)

lemma correlation:
  assumes "length a = N" and "length b = N" and "0 < N" and "n < N"
  shows "idft (map2 (\<lambda>x y. x * y) (dft a) (map (\<lambda>z. - cnj z) (dft b))) ! n
           = - (\<Sum>j<N. a ! ((j + n) mod N) * cnj (b ! j))"
proof -
  let ?w = "unity_root N"
  let ?P = "map2 (\<lambda>x y. x * y) (dft a) (map (\<lambda>z. - cnj z) (dft b))"
  have lenP: "length ?P = N" using assms(1,2) by simp
  have Pk: "?P ! k = (\<Sum>p<N. a ! p * ?w ^ (k * p)) * - (\<Sum>j<N. cnj (b ! j) * cnj ?w ^ (k * j))"
    if "k < N" for k
    using that assms(1,2) by (simp add: dft_nth)
  have tm: "?P ! k * cnj ?w ^ (k * n)
      = - (\<Sum>p<N. \<Sum>j<N. a ! p * cnj (b ! j) * (?w ^ (k * p) * cnj ?w ^ (k * (j + n))))"
    if "k < N" for k
  proof -
    have "?P ! k * cnj ?w ^ (k * n)
        = - ((\<Sum>p<N. a ! p * ?w ^ (k * p)) * (\<Sum>j<N. cnj (b ! j) * cnj ?w ^ (k * j)) * cnj ?w ^ (k * n))"
      by (simp add: Pk[OF that])
    also have "(\<Sum>p<N. a ! p * ?w ^ (k * p)) * (\<Sum>j<N. cnj (b ! j) * cnj ?w ^ (k * j)) * cnj ?w ^ (k * n)
        = (\<Sum>p<N. \<Sum>j<N. a ! p * ?w ^ (k * p) * (cnj (b ! j) * cnj ?w ^ (k * j)) * cnj ?w ^ (k * n))"
    proof -
      have "(\<Sum>p<N. a ! p * ?w ^ (k * p)) * (\<Sum>j<N. cnj (b ! j) * cnj ?w ^ (k * j)) * cnj ?w ^ (k * n)
          = (\<Sum>p<N. \<Sum>j<N. a ! p * ?w ^ (k * p) * (cnj (b ! j) * cnj ?w ^ (k * j))) * cnj ?w ^ (k * n)"
        by (simp only: sum_product)
      also have "\<dots> = (\<Sum>p<N. (\<Sum>j<N. a ! p * ?w ^ (k * p) * (cnj (b ! j) * cnj ?w ^ (k * j))) * cnj ?w ^ (k * n))"
        by (rule sum_distrib_right)
      also have "\<dots> = (\<Sum>p<N. \<Sum>j<N. a ! p * ?w ^ (k * p) * (cnj (b ! j) * cnj ?w ^ (k * j)) * cnj ?w ^ (k * n))"
        by (intro sum.cong refl sum_distrib_right)
      finally show ?thesis .
    qed
    also have "\<dots> = (\<Sum>p<N. \<Sum>j<N. a ! p * cnj (b ! j) * (?w ^ (k * p) * cnj ?w ^ (k * (j + n))))"
      by (intro sum.cong refl) (simp add: power_add distrib_left mult_ac)
    finally show ?thesis .
  qed
  have "(\<Sum>k<N. ?P ! k * cnj ?w ^ (k * n))
      = (\<Sum>k<N. - (\<Sum>p<N. \<Sum>j<N. a ! p * cnj (b ! j) * (?w ^ (k * p) * cnj ?w ^ (k * (j + n)))))"
    by (intro sum.cong refl) (simp add: tm)
  also have "\<dots> = - (\<Sum>k<N. \<Sum>p<N. \<Sum>j<N. a ! p * cnj (b ! j) * (?w ^ (k * p) * cnj ?w ^ (k * (j + n))))"
    by (simp add: sum_negf)
  also have "(\<Sum>k<N. \<Sum>p<N. \<Sum>j<N. a ! p * cnj (b ! j) * (?w ^ (k * p) * cnj ?w ^ (k * (j + n))))
      = (\<Sum>p<N. \<Sum>k<N. \<Sum>j<N. a ! p * cnj (b ! j) * (?w ^ (k * p) * cnj ?w ^ (k * (j + n))))"
    by (rule sum.swap)
  also have "\<dots> = (\<Sum>p<N. \<Sum>j<N. \<Sum>k<N. a ! p * cnj (b ! j) * (?w ^ (k * p) * cnj ?w ^ (k * (j + n))))"
    by (intro sum.cong refl sum.swap)
  also have "\<dots> = (\<Sum>p<N. \<Sum>j<N. a ! p * cnj (b ! j) * (\<Sum>k<N. ?w ^ (k * p) * cnj ?w ^ (k * (j + n))))"
    by (simp add: sum_distrib_left)
  also have "\<dots> = (\<Sum>p<N. \<Sum>j<N. a ! p * cnj (b ! j) * (if p mod N = (j + n) mod N then of_nat N else 0))"
    by (simp only: root_orthogonal[OF assms(3)])
  also have "\<dots> = (\<Sum>j<N. \<Sum>p<N. a ! p * cnj (b ! j) * (if p mod N = (j + n) mod N then of_nat N else 0))"
    by (rule sum.swap)
  also have "\<dots> = (\<Sum>j<N. a ! ((j + n) mod N) * cnj (b ! j) * of_nat N)"
  proof (intro sum.cong refl)
    fix j assume "j \<in> {..<N}"
    have "(\<Sum>p<N. a ! p * cnj (b ! j) * (if p mod N = (j + n) mod N then of_nat N else 0))
        = (\<Sum>p<N. if p = (j + n) mod N then a ! p * cnj (b ! j) * of_nat N else 0)"
      by (intro sum.cong refl) auto
    also have "\<dots> = a ! ((j + n) mod N) * cnj (b ! j) * of_nat N"
      using assms(3) by (simp add: sum.delta)
    finally show "(\<Sum>p<N. a ! p * cnj (b ! j) * (if p mod N = (j + n) mod N then of_nat N else 0))
        = a ! ((j + n) mod N) * cnj (b ! j) * of_nat N" .
  qed
  also have "\<dots> = (\<Sum>j<N. a ! ((j + n) mod N) * cnj (b ! j)) * of_nat N"
    by (simp add: sum_distrib_right)
  finally have "(\<Sum>k<N. ?P ! k * cnj ?w ^ (k * n))
      = - ((\<Sum>j<N. a ! ((j + n) mod N) * cnj (b ! j)) * of_nat N)" .
  then show ?thesis using assms(3,4) lenP by (simp add: idft_nth)
qed


lemma find_phase_signals:
  assumes "length s1 = N" and "length s2 = N" and "0 < N"
  shows "\<exists>corr m.
           ifft (map2 (\<lambda>x y. x * y) (dft (map complex_of_real s1))
                   (map (\<lambda>z. cnj (- z)) (dft (map complex_of_real s2)))) = Inr corr \<and>
           length corr = N \<and>
           (\<forall>n<N. corr ! n = - complex_of_real (\<Sum>j<N. s1 ! ((j + n) mod N) * s2 ! j)) \<and>
           argmax (map cmod corr) = Inr m \<and> m < N \<and>
           find_phase (Some s1) (Some s2) None None False False
             = Inr (if 2 * m < N then - int m else int N - int m, [])"
proof -
  let ?a = "map complex_of_real s1" and ?b = "map complex_of_real s2"
  let ?P = "map2 (\<lambda>x y. x * y) (dft ?a) (map (\<lambda>z. - cnj z) (dft ?b))"
  define corr where "corr = idft ?P"
  have neg: "map (\<lambda>z. cnj (- z)) (dft ?b) = map (\<lambda>z. - cnj z) (dft ?b)" by simp
  have lenP: "length ?P = N" using assms(1,2) by simp
  have Pne: "?P \<noteq> []"
  proof
    assume "?P = []"
    then have "length ?P = 0" by (simp only: list.size)
    then show False using lenP assms(3) by simp
  qed
  have ane: "?a \<noteq> []" "?b \<noteq> []" using assms by auto
  have len: "length corr = N" using lenP by (simp add: corr_def)
  have i: "ifft ?P = Inr corr" using Pne by (simp add: ifft_def corr_def)
  have vals: "corr ! n = - complex_of_real (\<Sum>j<N. s1 ! ((j + n) mod N) * s2 ! j)" if "n < N" for n
  proof -
    have "corr ! n = - (\<Sum>j<N. ?a ! ((j + n) mod N) * cnj (?b ! j))"
      unfolding corr_def using correlation[of ?a N ?b n] assms that by simp
    also have "(\<Sum>j<N. ?a ! ((j + n) mod N) * cnj (?b ! j))
        = (\<Sum>j<N. complex_of_real (s1 ! ((j + n) mod N) * s2 ! j))"
      using assms by (intro sum.cong refl) simp
    finally show ?thesis by simp
  qed
  have "map cmod corr \<noteq> []" using len assms(3) by auto
  then obtain m where m: "argmax (map cmod corr) = Inr m" "m < length (map cmod corr)"
    using argmax_in_range by blast
  have mul: "multiply (dft ?a) (map (\<lambda>z. - cnj z) (dft ?b)) = Inr ?P"
    using assms(1,2) by (simp add: multiply_def)
  have cmp: "(real m * 2 < real N) = (2 * m < N)"
    by linarith
  have "find_phase (Some s1) (Some s2) None None False False
      = Inr (if 2 * m < N then - int m else int N - int m, [])"
    unfolding find_phase_def using ane assms(1)
    by (simp add: fft_def mul i m(1) cmp)
  then show ?thesis using i len vals m unfolding neg by auto
qed


lemma sum_less_5: "(\<Sum>j<(5::nat). f j) = f 0 + f 1 + f 2 + f 3 + (f 4 :: real)"
  by (simp add: eval_nat_numeral)

lemma find_phase_doctest:
  "find_phase (Some [0, 1, 0, 0, 0]) (Some [0, 0, 0, 1, 0]) None None False False = Inr (2, [])"
proof -
  let ?s1 = "[0, 1, 0, 0, 0] :: real list" and ?s2 = "[0, 0, 0, 1, 0] :: real list"
  obtain corr m where c: "length corr = 5"
      "\<forall>n<5. corr ! n = - complex_of_real (\<Sum>j<5. ?s1 ! ((j + n) mod 5) * ?s2 ! j)"
      "argmax (map cmod corr) = Inr m"
      "find_phase (Some ?s1) (Some ?s2) None None False False
             = Inr (if 2 * m < 5 then - int m else int 5 - int m, [])"
    using find_phase_signals[of ?s1 5 ?s2] by auto
  have v: "corr ! 0 = 0" "corr ! 1 = 0" "corr ! 2 = 0" "corr ! 3 = - 1" "corr ! 4 = 0"
    using c(2) by (simp_all add: sum_less_5)
  have "corr = [0, 0, 0, - 1, 0]"
  proof (rule nth_equalityI)
    show "length corr = length [0, 0, 0, - 1, 0 :: complex]" using c(1) by simp
    fix i assume "i < length corr"
    then have "i = 0 \<or> i = 1 \<or> i = 2 \<or> i = 3 \<or> i = 4" using c(1) by auto
    then show "corr ! i = [0, 0, 0, - 1, 0] ! i" using v by auto
  qed
  then have "map cmod corr = [0, 0, 0, 1, 0]" by simp
  then have "argmax (map cmod corr) = Inr 3" by simp
  then have "m = 3" using c(3) by simp
  then show ?thesis using c(4) by simp
qed


text \<open>
  C4: \<^verbatim>\<open>find_phase\<close> on two signals of the same length \<open>N > 0\<close> forms
  \<open>corr = ifft(F1 \<cdot> conjugate(-F2))\<close> from the transforms of the signals (so that
  \<open>corr[n]\<close> is the negated circular cross-correlation \<open>\<Sum>j. s1[(j + n) mod N] \<cdot> s2[j]\<close>),
  takes the index \<open>m\<close> of the first maximum of its magnitude and returns the shift
  \<open>-m\<close> if \<open>m < N / 2\<close> and \<open>N - m\<close> otherwise. In particular
  \<^verbatim>\<open>find_phase([0, 1, 0, 0, 0], [0, 0, 0, 1, 0])\<close> is \<^verbatim>\<open>(2,)\<close>.
\<close>

theorem find_phase_shift:
  "(length s1 = N \<and> length s2 = N \<and> 0 < N \<longrightarrow>
      (\<exists>corr m.
           ifft (map2 (\<lambda>x y. x * y) (dft (map complex_of_real s1))
                   (map (\<lambda>z. cnj (- z)) (dft (map complex_of_real s2)))) = Inr corr \<and>
           length corr = N \<and>
           (\<forall>n<N. corr ! n = - complex_of_real (\<Sum>j<N. s1 ! ((j + n) mod N) * s2 ! j)) \<and>
           argmax (map cmod corr) = Inr m \<and> m < N \<and>
           find_phase (Some s1) (Some s2) None None False False
             = Inr (if 2 * m < N then - int m else int N - int m, []))) \<and>
   find_phase (Some [0, 1, 0, 0, 0]) (Some [0, 0, 0, 1, 0]) None None False False = Inr (2, [])"
  using find_phase_signals[of s1 N s2] find_phase_doctest by blast

theorem find_phase_shift_witness:
  "(\<exists>corr m.
       ifft (map2 (\<lambda>x y. x * y) (dft (map complex_of_real [0, 1, 0, 0, 0]))
               (map (\<lambda>z. cnj (- z)) (dft (map complex_of_real [0, 0, 0, 1, 0])))) = Inr corr \<and>
       length corr = 5 \<and> argmax (map cmod corr) = Inr m \<and> m < 5) \<and>
   find_phase (Some [0, 1, 0, 0, 0]) (Some [0, 0, 0, 1, 0]) None None False False = Inr (2, [])"
proof -
  have h: "length [0, 1, 0, 0, 0 :: real] = 5 \<and> length [0, 0, 0, 1, 0 :: real] = 5 \<and> (0::nat) < 5"
    by simp
  from find_phase_shift[of "[0, 1, 0, 0, 0]" 5 "[0, 0, 0, 1, 0]"] h show ?thesis by blast
qed

end
